theory Spec2Isabelle
  imports Main "HOL-Library.Sublist"
begin

section \<open>Strings\<close>

text \<open>
  A Python \<open>str\<close> is a sequence of code points. It is modelled as a \<open>string\<close> whose
  characters stand for the code points below 256; the character classes below are the
  ones Python uses on that range.
\<close>

definition isspace :: "char \<Rightarrow> bool" where
  \<comment> \<open>\<open>str.isspace\<close> on one character, also the class \<open>\s\<close> of \<open>re\<close>\<close>
  "isspace c = (c \<in> set [CHR 0x09, CHR 0x0A, CHR 0x0B, CHR 0x0C, CHR 0x0D,
                           CHR 0x1C, CHR 0x1D, CHR 0x1E, CHR 0x1F, CHR 0x20,
                           CHR 0x85, CHR 0xA0])"

definition isdigit :: "char \<Rightarrow> bool" where
  \<comment> \<open>\<open>str.isdigit\<close>: the ASCII digits and the superscripts 1, 2, 3\<close>
  "isdigit c = (c \<in> set (''0123456789'' @ [CHR 0xB2, CHR 0xB3, CHR 0xB9]))"

definition ident_char :: "char \<Rightarrow> bool" where
  \<comment> \<open>the characters the class \<open>[^0-9A-Za-z_]\<close> of \<open>IDENTIFIER_SANITIZE_RE\<close> leaves alone\<close>
  "ident_char c =
     (c \<in> set ''0123456789ABCDEFGHIJKLMNOPQRSTUVWXYZabcdefghijklmnopqrstuvwxyz_'')"

definition lstrip :: "string \<Rightarrow> string" where
  "lstrip s = dropWhile isspace s"

definition rstrip :: "string \<Rightarrow> string" where
  "rstrip s = rev (dropWhile isspace (rev s))"

definition strip :: "string \<Rightarrow> string" where
  "strip s = lstrip (rstrip s)"

definition startswith :: "string \<Rightarrow> string \<Rightarrow> bool" where
  "startswith s p = prefix p s"

definition endswith :: "string \<Rightarrow> string \<Rightarrow> bool" where
  "endswith s p = prefix (rev p) (rev s)"

text \<open>
  \<open>str.replace(old, new)\<close>: the occurrences of \<open>old\<close> are found from the left and do not
  overlap. With an empty \<open>old\<close> Python puts \<open>new\<close> before every character and at the end.
\<close>

function replace :: "string \<Rightarrow> string \<Rightarrow> string \<Rightarrow> string" where
  "replace old new s =
     (if old = [] then new @ concat (map (\<lambda>c. c # new) s)
      else if s = [] then []
      else if prefix old s then new @ replace old new (drop (length old) s)
      else hd s # replace old new (tl s))"
  by pat_completeness auto
termination
  by (relation "measure (\<lambda>(old, new, s). length s)") auto

declare replace.simps [simp del]

text \<open>\<open>re.sub(r"__+", "_", s)\<close>: every run of two or more underscores becomes one.\<close>

fun collapse_underscores :: "string \<Rightarrow> string" where
  "collapse_underscores (a # b # cs) =
     (if a = CHR ''_'' \<and> b = CHR ''_'' then collapse_underscores (b # cs)
      else a # collapse_underscores (b # cs))"
| "collapse_underscores cs = cs"

section \<open>Sanitization\<close>

definition sanitize_struct_name :: "string \<Rightarrow> string" where
  "sanitize_struct_name name =
     (let sanitized = replace ''::'' ''.'' name;
          sanitized = replace ''+'' ''.'' sanitized;
          sanitized = replace ''/'' ''.'' sanitized;
          sanitized = replace '' `'' ''`'' sanitized;
          sanitized = replace ''`'' ''_'' sanitized;
          sanitized = replace ''<'' ''_'' sanitized;
          sanitized = replace ''>'' '''' sanitized;
          sanitized = replace '','' ''_'' sanitized;
          sanitized = replace '' '' ''_'' sanitized;
          sanitized = replace ''['' ''_'' sanitized;
          sanitized = replace '']'' '''' sanitized;
          sanitized = replace ''-'' ''_'' sanitized;
          sanitized = replace '':'' ''_'' sanitized;
          sanitized = replace ''.'' ''_'' sanitized;
          sanitized = collapse_underscores sanitized
      in if startswith sanitized ''_'' then tl sanitized else sanitized)"

definition sanitize_identifier :: "string \<Rightarrow> string" where
  "sanitize_identifier name =
     (let candidate = strip name;
          candidate = (if startswith candidate ''@'' then tl candidate else candidate);
          candidate = replace ''>'' ''_'' (replace ''<'' ''_'' candidate);
          sanitized = map (\<lambda>c. if ident_char c then c else CHR ''_'') candidate;
          sanitized = collapse_underscores sanitized;
          sanitized = (if sanitized \<noteq> [] \<and> isdigit (hd sanitized)
                       then CHR ''_'' # sanitized else sanitized)
      in if sanitized \<noteq> [] then sanitized else ''field'')"

section \<open>Data model\<close>

text \<open>
  The Python objects of one run live in an arena: the list \<open>type_infos\<close> that
  \<open>parse_dump\<close> builds, in discovery order. A reference to a \<open>TypeInfo\<close> object (in the
  alias map, in \<open>Field.referenced\<close>, in a scanner context) is the object's position in that
  list, so that Python's object identity (\<open>existing is info\<close>) is equality of positions.
\<close>

datatype Kind = KClass | KStruct | KEnum

record Field =
  name :: string
  original_type :: string
  is_static :: bool
  c_type :: "string option"
  referenced :: "nat option"

record TypeInfo =
  full_name :: string
  short_name :: string
  struct_name :: string
  kind :: Kind
  parent :: "string option"
  enum_base :: "string option"
  fields' :: "Field list"
  static_fields :: "Field list"

definition is_value_type :: "TypeInfo \<Rightarrow> bool" where
  "is_value_type info = (kind info \<in> {KStruct, KEnum})"

definition is_enum :: "TypeInfo \<Rightarrow> bool" where
  "is_enum info = (kind info = KEnum)"

definition PRIMITIVE_MAP :: "string \<rightharpoonup> string" where
  "PRIMITIVE_MAP = map_of
    [(''bool'', ''bool''), (''Boolean'', ''bool''), (''System.Boolean'', ''bool''),
     (''byte'', ''uint8_t''), (''Byte'', ''uint8_t''), (''System.Byte'', ''uint8_t''),
     (''sbyte'', ''int8_t''), (''SByte'', ''int8_t''), (''System.SByte'', ''int8_t''),
     (''short'', ''int16_t''), (''Int16'', ''int16_t''), (''System.Int16'', ''int16_t''),
     (''ushort'', ''uint16_t''), (''UInt16'', ''uint16_t''), (''System.UInt16'', ''uint16_t''),
     (''char'', ''uint16_t''), (''Char'', ''uint16_t''), (''System.Char'', ''uint16_t''),
     (''int'', ''int32_t''), (''Int32'', ''int32_t''), (''System.Int32'', ''int32_t''),
     (''uint'', ''uint32_t''), (''UInt32'', ''uint32_t''), (''System.UInt32'', ''uint32_t''),
     (''long'', ''int64_t''), (''Int64'', ''int64_t''), (''System.Int64'', ''int64_t''),
     (''ulong'', ''uint64_t''), (''UInt64'', ''uint64_t''), (''System.UInt64'', ''uint64_t''),
     (''float'', ''float''), (''Single'', ''float''), (''System.Single'', ''float''),
     (''double'', ''double''), (''Double'', ''double''), (''System.Double'', ''double''),
     (''string'', ''System_String_o*''), (''String'', ''System_String_o*''),
     (''System.String'', ''System_String_o*''),
     (''void'', ''void''),
     (''IntPtr'', ''intptr_t''), (''System.IntPtr'', ''intptr_t''),
     (''UIntPtr'', ''uintptr_t''), (''System.UIntPtr'', ''uintptr_t''),
     (''object'', ''Il2CppObject*''), (''Object'', ''Il2CppObject*''),
     (''System.Object'', ''Il2CppObject*'')]"

definition IGNORED_BASES :: "string set" where
  "IGNORED_BASES = {''object'', ''System.Object'', ''Il2CppSystem.Object'', ''ValueType'',
                    ''System.ValueType''}"

section \<open>The alias map\<close>

definition normalise_type_name :: "string \<Rightarrow> string" where
  "normalise_type_name nm =
     (let nm = strip nm;
          nm = (if startswith nm ''global::'' then drop (length ''global::'') nm else nm)
      in replace ''+'' ''.'' (replace ''::'' ''.'' nm))"

text \<open>
  The dictionary \<open>AliasMap._map\<close>. A key bound to \<open>None\<close> is the ambiguous alias that
  Python stores as the value \<open>None\<close>; a key outside the domain is absent.
\<close>

type_synonym AliasMap = "string \<rightharpoonup> nat option"

definition AliasMap_add :: "string \<Rightarrow> nat \<Rightarrow> AliasMap \<Rightarrow> AliasMap" where
  "AliasMap_add alias info m =
     (let alias = normalise_type_name alias
      in case m alias of
           None \<Rightarrow> m(alias \<mapsto> Some info)
         | Some existing \<Rightarrow>
             (if existing = Some info then m
              else if existing = None then m
              else m(alias \<mapsto> None)))"

definition dict_get :: "AliasMap \<Rightarrow> string \<Rightarrow> nat option" where
  \<comment> \<open>\<open>self._map.get(name)\<close>: an absent key and the value \<open>None\<close> read alike\<close>
  "dict_get m k = (case m k of None \<Rightarrow> None | Some v \<Rightarrow> v)"

definition last_segment :: "string \<Rightarrow> string" where
  \<comment> \<open>\<open>name.split('.')[-1]\<close>\<close>
  "last_segment s = rev (takeWhile (\<lambda>c. c \<noteq> CHR ''.'') (rev s))"

definition AliasMap_resolve :: "AliasMap \<Rightarrow> string \<Rightarrow> nat option" where
  "AliasMap_resolve m nm =
     (let nm = normalise_type_name nm
      in case dict_get m nm of
           Some candidate \<Rightarrow> Some candidate
         | None \<Rightarrow> dict_get m (last_segment nm))"

section \<open>Type resolution\<close>

function strip_pointers :: "string \<Rightarrow> string \<Rightarrow> string \<times> string" where
  "strip_pointers working pointer_suffix =
     (if endswith working ''*''
      then strip_pointers (rstrip (butlast working)) (pointer_suffix @ ''*'')
      else (working, pointer_suffix))"
  by pat_completeness auto
termination
proof (relation "measure (\<lambda>(working, pointer_suffix). length working)")
  fix working pointer_suffix :: string
  assume "endswith working ''*''"
  then have "working \<noteq> []" by (auto simp: endswith_def)
  moreover have "length (rstrip (butlast working)) \<le> length (butlast working)"
    by (simp add: rstrip_def length_dropWhile_le[of isspace "rev (butlast working)", simplified])
  ultimately show "((rstrip (butlast working), pointer_suffix @ ''*''), working, pointer_suffix)
      \<in> measure (\<lambda>(working, pointer_suffix). length working)"
    by (cases working rule: rev_cases) auto
qed simp

declare strip_pointers.simps [simp del]

function strip_arrays :: "string \<Rightarrow> nat \<Rightarrow> string \<times> nat" where
  "strip_arrays working array_count =
     (if endswith working ''[]''
      then strip_arrays (rstrip (take (length working - 2) working)) (array_count + 1)
      else (working, array_count))"
  by pat_completeness auto
termination
proof (relation "measure (\<lambda>(working, array_count). length working)")
  fix working :: string and array_count :: nat
  assume "endswith working ''[]''"
  then have "working \<noteq> []" by (auto simp: endswith_def)
  moreover have "length (rstrip (take (length working - 2) working))
                 \<le> length (take (length working - 2) working)"
    by (simp add: rstrip_def
          length_dropWhile_le[of isspace "rev (take (length working - 2) working)", simplified])
  ultimately show "((rstrip (take (length working - 2) working), array_count + 1),
                    working, array_count)
      \<in> measure (\<lambda>(working, array_count). length working)"
    by (cases working) auto
qed simp

declare strip_arrays.simps [simp del]

definition base_name :: "string \<Rightarrow> string \<times> string \<times> nat" where
  \<comment> \<open>the first part of \<open>convert_type\<close>: the base name, the pointer suffix, the array count\<close>
  "base_name declared_type =
     (let working = strip declared_type;
          (working, pointer_suffix) = strip_pointers working '''';
          (working, array_count) = strip_arrays working 0;
          nullable = endswith working ''?'';
          working = (if nullable then butlast working else working);
          working = replace ''?'' '''' working;
          working = strip working
      in (working, pointer_suffix, array_count))"

definition convert_type ::
  "TypeInfo list \<Rightarrow> string \<Rightarrow> AliasMap \<Rightarrow> string \<times> nat option" where
  "convert_type type_infos declared_type alias_map =
     (let (working, pointer_suffix, array_count) = base_name declared_type
      in case PRIMITIVE_MAP working of
           Some primitive \<Rightarrow>
             (if array_count > 0 then (''Il2CppArray*'', None)
              else (primitive @ pointer_suffix, None))
         | None \<Rightarrow>
             (case AliasMap_resolve alias_map working of
                Some r \<Rightarrow>
                  (let ref = type_infos ! r;
                       base =
                         (if is_enum ref
                          then (case PRIMITIVE_MAP
                                       (case enum_base ref of
                                          None \<Rightarrow> ''int32_t''
                                        | Some b \<Rightarrow> if b = [] then ''int32_t'' else b) of
                                  None \<Rightarrow> ''int32_t''
                                | Some p \<Rightarrow> p)
                          else if is_value_type ref
                          then struct_name ref @ ''_o''
                          else struct_name ref @ ''_o*'');
                       dependency = (if is_value_type ref then Some r else None)
                   in if array_count > 0 then (''Il2CppArray*'', dependency)
                      else (base @ pointer_suffix, dependency))
              | None \<Rightarrow>
                  (if array_count > 0 then (''Il2CppArray*'', None)
                   else if working \<in> {''IntPtr'', ''System.IntPtr''}
                   then (''intptr_t'' @ pointer_suffix, None)
                   else (''Il2CppObject*'', None))))"

section \<open>Example symbol tables\<close>

text \<open>
  A struct \<open>NS.Vec\<close> and an enum \<open>Color : byte\<close>, registered under their qualified and short
  names as \<open>parse_dump\<close> registers them.
\<close>

definition example_types :: "TypeInfo list" where
  "example_types =
     [\<lparr>full_name = ''NS.Vec'', short_name = ''Vec'', struct_name = ''NS_Vec'', kind = KStruct,
       parent = None, enum_base = None, fields' = [], static_fields = []\<rparr>,
      \<lparr>full_name = ''Color'', short_name = ''Color'', struct_name = ''Color'', kind = KEnum,
       parent = None, enum_base = Some ''byte'', fields' = [], static_fields = []\<rparr>]"

definition example_alias :: AliasMap where
  "example_alias =
     AliasMap_add ''Color'' 1 (AliasMap_add ''Color'' 1
       (AliasMap_add ''Vec'' 0 (AliasMap_add ''NS.Vec'' 0 Map.empty)))"

section \<open>Regular expressions\<close>

text \<open>
  The three patterns of the scanner are matched by Python's backtracking \<open>re\<close> engine.
  A pattern is a value of type \<open>rx\<close>, and \<open>rx_runs\<close> lists every way the pattern can match
  at the start of a string, in the order in which the engine tries them (a greedy
  repetition first takes as much as it can). Each way is the rest of the string and the
  named groups captured so far.
\<close>

definition isword :: "char \<Rightarrow> bool" where
  \<comment> \<open>the class \<open>\w\<close>: \<open>str.isalnum\<close> or the underscore\<close>
  "isword c =
     (ident_char c \<or>
      (let n = (of_char c :: nat)
       in n \<in> {0xAA, 0xB2, 0xB3, 0xB5, 0xB9, 0xBA, 0xBC, 0xBD, 0xBE} \<or>
          (0xC0 \<le> n \<and> n \<noteq> 0xD7 \<and> n \<noteq> 0xF7)))"

datatype rx =
    Lit string
  | Class "char \<Rightarrow> bool"
  | Seq rx rx
  | Alt rx rx
  | Opt rx
  | Star rx
  | Group string rx
  | EndAnchor

type_synonym groups = "(string \<times> string) list"

text \<open>
  A greedy repetition tries one more round of its body before it tries to stop. A round
  that takes no character is not repeated; the number of rounds is then at most the length
  of the string, which is the bound that \<open>rx_runs\<close> passes to \<open>star_runs\<close>.
\<close>

primrec star_runs ::
  "(string \<Rightarrow> groups \<Rightarrow> (string \<times> groups) list) \<Rightarrow> nat \<Rightarrow> string \<Rightarrow> groups \<Rightarrow>
   (string \<times> groups) list" where
  "star_runs body 0 s g = [(s, g)]"
| "star_runs body (Suc n) s g =
     concat (map (\<lambda>(s', g'). if length s' < length s then star_runs body n s' g' else [])
                 (body s g)) @ [(s, g)]"

primrec rx_runs :: "rx \<Rightarrow> string \<Rightarrow> groups \<Rightarrow> (string \<times> groups) list" where
  "rx_runs (Lit p) = (\<lambda>s g. if prefix p s then [(drop (length p) s, g)] else [])"
| "rx_runs (Class P) = (\<lambda>s g. case s of [] \<Rightarrow> [] | c # cs \<Rightarrow> if P c then [(cs, g)] else [])"
| "rx_runs (Seq a b) = (\<lambda>s g. concat (map (\<lambda>(s', g'). rx_runs b s' g') (rx_runs a s g)))"
| "rx_runs (Alt a b) = (\<lambda>s g. rx_runs a s g @ rx_runs b s g)"
| "rx_runs (Opt a) = (\<lambda>s g. rx_runs a s g @ [(s, g)])"
| "rx_runs (Star a) = (\<lambda>s g. star_runs (rx_runs a) (length s) s g)"
| "rx_runs (Group n a) =
     (\<lambda>s g. map (\<lambda>(s', g'). (s', (n, take (length s - length s') s) # g')) (rx_runs a s g))"
| "rx_runs EndAnchor = (\<lambda>s g. if s = [] \<or> s = [CHR 0x0A] then [(s, g)] else [])"

definition Plus :: "rx \<Rightarrow> rx" where
  "Plus a = Seq a (Star a)"

fun Seqs :: "rx list \<Rightarrow> rx" where
  "Seqs [] = Lit []"
| "Seqs [a] = a"
| "Seqs (a # as) = Seq a (Seqs as)"

definition rx_match :: "rx \<Rightarrow> string \<Rightarrow> groups option" where
  \<comment> \<open>\<open>pattern.match(s)\<close>: the first way to match at the start of \<open>s\<close>, if any\<close>
  "rx_match r s = (case rx_runs r s [] of [] \<Rightarrow> None | (s', g) # rest \<Rightarrow> Some g)"

fun rx_search :: "rx \<Rightarrow> string \<Rightarrow> bool" where
  \<comment> \<open>\<open>pattern.search(s)\<close> read as a truth value: a match starting at some position\<close>
  "rx_search r [] = (rx_runs r [] [] \<noteq> [])"
| "rx_search r (c # cs) = (rx_runs r (c # cs) [] \<noteq> [] \<or> rx_search r cs)"

definition group :: "groups \<Rightarrow> string \<Rightarrow> string option" where
  \<comment> \<open>\<open>match.group(n)\<close>; \<open>None\<close> for a group that took no part in the match\<close>
  "group g n = map_of g n"

definition FIELD_OFFSET_RE :: rx where
  \<comment> \<open>\<open>\[\s*FieldOffset\s*\(\<close>\<close>
  "FIELD_OFFSET_RE =
     Seqs [Lit ''['', Star (Class isspace), Lit ''FieldOffset'', Star (Class isspace), Lit ''('']"

definition NAMESPACE_RE :: rx where
  \<comment> \<open>\<open>^namespace\s+([\w\.]+)\s*(?:\{)?\s*$\<close>\<close>
  "NAMESPACE_RE =
     Seqs [Lit ''namespace'', Plus (Class isspace),
           Group ''1'' (Plus (Class (\<lambda>c. isword c \<or> c = CHR ''.''))),
           Star (Class isspace), Opt (Lit ''{''), Star (Class isspace), EndAnchor]"

definition TYPE_RE :: rx where
  \<comment> \<open>\<open>^(?P<prefix>(?:\[[^\]]+\]\s*)*)(?P<mods>(?:[\w]+\s+)*)(?P<kind>class|struct|enum)\s+\<close>
      \<open>(?P<name>[\w`]+(?:<[^>]+>)?)(?:\s*:\s*(?P<bases>[^\{]+))?\s*(?:\{)?\s*$\<close>\<close>
  "TYPE_RE =
     Seqs [Group ''prefix''
             (Star (Seqs [Lit ''['', Plus (Class (\<lambda>c. c \<noteq> CHR '']'')), Lit '']'',
                          Star (Class isspace)])),
           Group ''mods'' (Star (Seq (Plus (Class isword)) (Plus (Class isspace)))),
           Group ''kind'' (Alt (Lit ''class'') (Alt (Lit ''struct'') (Lit ''enum''))),
           Plus (Class isspace),
           Group ''name''
             (Seq (Plus (Class (\<lambda>c. isword c \<or> c = CHR ''`'')))
                  (Opt (Seqs [Lit ''<'', Plus (Class (\<lambda>c. c \<noteq> CHR ''>'')), Lit ''>'']))),
           Opt (Seqs [Star (Class isspace), Lit '':'', Star (Class isspace),
                      Group ''bases'' (Plus (Class (\<lambda>c. c \<noteq> CHR ''{'')))]),
           Star (Class isspace), Opt (Lit ''{''), Star (Class isspace), EndAnchor]"

section \<open>Errors\<close>

datatype error =
    IndexError
  | ValueError string
  | SystemExit string

section \<open>Splitting a field declaration\<close>

definition MODIFIERS :: "string set" where
  "MODIFIERS = {''public'', ''private'', ''protected'', ''internal'', ''static'', ''readonly'',
                ''volatile'', ''unsafe'', ''const'', ''new'', ''sealed'', ''abstract'', ''extern'',
                ''partial'', ''fixed''}"

definition split_ws1 :: "string \<Rightarrow> string list" where
  \<comment> \<open>\<open>s.split(None, 1)\<close>\<close>
  "split_ws1 s =
     (let s = lstrip s
      in if s = [] then []
         else (let first = takeWhile (\<lambda>c. \<not> isspace c) s;
                   rest = lstrip (dropWhile (\<lambda>c. \<not> isspace c) s)
               in if rest = [] then [first] else [first, rest]))"

function strip_modifiers_loop :: "string \<Rightarrow> string" where
  "strip_modifiers_loop remaining =
     (case split_ws1 remaining of
        [p] \<Rightarrow> if p \<in> MODIFIERS then [] else remaining
      | [p, rest] \<Rightarrow> if p \<in> MODIFIERS then strip_modifiers_loop rest else remaining
      | _ \<Rightarrow> remaining)"
  by pat_completeness auto
termination
proof -
  have shorter: "length b < length s" if a: "split_ws1 s = [a, b]" for s a b
  proof -
    let ?t = "lstrip s"
    have ne: "?t \<noteq> []" using a by (auto simp: split_ws1_def Let_def)
    have b: "b = lstrip (dropWhile (\<lambda>c. \<not> isspace c) ?t)"
      using a ne by (auto simp: split_ws1_def Let_def split: if_splits)
    have "\<not> isspace (hd ?t)"
      using ne unfolding lstrip_def by (metis hd_dropWhile)
    then have "length (dropWhile (\<lambda>c. \<not> isspace c) ?t) < length ?t"
      using ne by (cases ?t) (auto simp: less_Suc_eq_le length_dropWhile_le)
    moreover have "length b \<le> length (dropWhile (\<lambda>c. \<not> isspace c) ?t)"
      unfolding b lstrip_def by (rule length_dropWhile_le)
    moreover have "length ?t \<le> length s"
      unfolding lstrip_def by (rule length_dropWhile_le)
    ultimately show ?thesis by linarith
  qed
  show ?thesis
    by (relation "measure length") (auto dest: shorter)
qed

declare strip_modifiers_loop.simps [simp del]

definition strip_modifiers :: "string \<Rightarrow> string" where
  "strip_modifiers declaration = strip_modifiers_loop (strip declaration)"

fun contains :: "string \<Rightarrow> string \<Rightarrow> bool" where
  \<comment> \<open>\<open>sub in s\<close>\<close>
  "contains [] sub = (sub = [])"
| "contains (c # cs) sub = (prefix sub (c # cs) \<or> contains cs sub)"

fun before_first :: "string \<Rightarrow> string \<Rightarrow> string" where
  \<comment> \<open>\<open>s.split(sep, 1)[0]\<close> for a non-empty separator\<close>
  "before_first sep [] = []"
| "before_first sep (c # cs) = (if prefix sep (c # cs) then [] else c # before_first sep cs)"

fun find_type_end :: "string \<Rightarrow> nat \<Rightarrow> nat \<Rightarrow> nat option" where
  \<comment> \<open>the \<open>for index, char in enumerate(declaration)\<close> loop: the arguments are the rest of
      the declaration, the current index and the nesting depth\<close>
  "find_type_end [] index depth = None"
| "find_type_end (char # rest) index depth =
     (if char = CHR ''<'' \<or> char = CHR ''['' then find_type_end rest (index + 1) (depth + 1)
      else if char = CHR ''>'' \<or> char = CHR '']'' then find_type_end rest (index + 1) (depth - 1)
      else if isspace char \<and> depth = 0 then Some index
      else find_type_end rest (index + 1) depth)"

definition split_type_and_name :: "string \<Rightarrow> error + string \<times> string" where
  "split_type_and_name declaration =
     (let declaration = strip declaration;
          declaration = rev (dropWhile (\<lambda>c. c = CHR '';'') (rev declaration));
          declaration = (if contains declaration ''//''
                         then rstrip (before_first ''//'' declaration) else declaration);
          declaration = strip_modifiers declaration
      in if declaration = [] then Inl (ValueError ''Empty declaration after removing modifiers'')
         else case find_type_end declaration 0 0 of
                None \<Rightarrow> Inl (ValueError (''Cannot split declaration: '' @ declaration))
              | Some type_end \<Rightarrow>
                  (let type_part = take type_end declaration;
                       rest = strip (drop type_end declaration);
                       name_part = strip (takeWhile (\<lambda>c. c \<noteq> CHR ''='') rest)
                   in Inr (type_part, name_part)))"

section \<open>The scanner\<close>

datatype ContextKind = CNamespace | CType

record Context =
  ctx_kind :: ContextKind
  ctx_name :: string
  pop_depth :: int
  type_info :: "nat option"
  entered :: bool

text \<open>The local variables of \<open>parse_dump\<close> that live across the lines of the dump.\<close>

record scan_state =
  type_infos :: "TypeInfo list"
  alias_map :: AliasMap
  contexts :: "Context list"
  brace_depth :: int
  pending_field :: bool
  current_type :: "nat option"

fun split_on :: "char \<Rightarrow> string \<Rightarrow> string list" where
  \<comment> \<open>\<open>s.split(sep)\<close> for a separator of one character\<close>
  "split_on sep [] = [[]]"
| "split_on sep (c # cs) =
     (if c = sep then [] # split_on sep cs
      else (case split_on sep cs of [] \<Rightarrow> [[c]] | x # xs \<Rightarrow> (c # x) # xs))"

fun join :: "string \<Rightarrow> string list \<Rightarrow> string" where
  \<comment> \<open>\<open>sep.join(parts)\<close>\<close>
  "join sep [] = []"
| "join sep [p] = p"
| "join sep (p # ps) = p @ sep @ join sep ps"

definition kind_of_group :: "string \<Rightarrow> Kind" where
  \<comment> \<open>the text of the group \<open>kind\<close> is one of \<open>class\<close>, \<open>struct\<close>, \<open>enum\<close>\<close>
  "kind_of_group k = (if k = ''enum'' then KEnum else if k = ''struct'' then KStruct else KClass)"

definition block_depth :: "nat \<Rightarrow> int \<Rightarrow> int \<Rightarrow> int" where
  \<comment> \<open>\<open>new_depth if open_braces > 0 else brace_depth + 1\<close>\<close>
  "block_depth open_braces new_depth depth = (if open_braces > 0 then new_depth else depth + 1)"

definition new_type_info :: "scan_state \<Rightarrow> groups \<Rightarrow> error + TypeInfo" where
  \<comment> \<open>the branch \<open>elif type_match\<close> up to the construction of the \<open>TypeInfo\<close>;
      \<open>base_candidates[0]\<close> raises on an empty list. A context of kind \<open>CType\<close> is only
      built with a \<open>type_info\<close>, which \<open>type_parts\<close> reads.\<close>
  "new_type_info st g =
     (let k = kind_of_group (case group g ''kind'' of None \<Rightarrow> [] | Some t \<Rightarrow> t);
          nm = (case group g ''name'' of None \<Rightarrow> [] | Some t \<Rightarrow> t);
          bases = (case group g ''bases'' of None \<Rightarrow> [] | Some t \<Rightarrow> t);
          base_candidates = filter (\<lambda>b. b \<noteq> []) (map strip (split_on CHR '','' bases))
      in if bases \<noteq> [] \<and> k = KEnum \<and> base_candidates = [] then Inl IndexError
         else
           (let enum_base' = (if bases \<noteq> [] \<and> k = KEnum then Some (hd base_candidates)
                              else None);
                parent' = (if bases \<noteq> [] \<and> k \<noteq> KEnum
                           then find (\<lambda>candidate. candidate \<notin> IGNORED_BASES) base_candidates
                           else None);
                namespace_parts =
                  map ctx_name (filter (\<lambda>ctx. ctx_kind ctx = CNamespace) (contexts st));
                type_parts =
                  map (\<lambda>ctx. short_name (type_infos st ! the (type_info ctx)))
                      (filter (\<lambda>ctx. ctx_kind ctx = CType) (contexts st));
                full = (if namespace_parts \<noteq> [] \<or> type_parts \<noteq> []
                        then join ''.'' (namespace_parts @ type_parts @ [nm]) else nm)
            in Inr \<lparr>full_name = full, short_name = nm,
                    struct_name = sanitize_struct_name full, kind = k, parent = parent',
                    enum_base = enum_base', fields' = [], static_fields = []\<rparr>))"

definition open_type ::
  "scan_state \<Rightarrow> groups \<Rightarrow> nat \<Rightarrow> int \<Rightarrow> error + scan_state" where
  \<comment> \<open>the branch \<open>elif type_match\<close>\<close>
  "open_type st g open_braces new_depth =
     (case new_type_info st g of
        Inl e \<Rightarrow> Inl e
      | Inr info \<Rightarrow>
          (let i = length (type_infos st)
           in Inr (st\<lparr>type_infos := type_infos st @ [info],
                      alias_map := AliasMap_add (short_name info) i
                                     (AliasMap_add (full_name info) i (alias_map st)),
                      contexts := contexts st @
                        [\<lparr>ctx_kind = CType, ctx_name = short_name info,
                          pop_depth = block_depth open_braces new_depth (brace_depth st),
                          type_info = Some i, entered = open_braces > 0\<rparr>],
                      current_type := Some i,
                      pending_field := False\<rparr>)))"

definition add_field :: "scan_state \<Rightarrow> nat \<Rightarrow> string \<Rightarrow> scan_state" where
  \<comment> \<open>the branch of a pending field declaration; \<open>i\<close> is \<open>current_type\<close>\<close>
  "add_field st i stripped =
     (case split_type_and_name stripped of
        Inl e \<Rightarrow> st\<lparr>pending_field := False\<rparr>
      | Inr (type_part, name_part) \<Rightarrow>
          (let static = contains ('' '' @ stripped @ '' '') '' static '';
               field = \<lparr>name = sanitize_identifier name_part, original_type = type_part,
                        is_static = static, c_type = None, referenced = None\<rparr>;
               info = type_infos st ! i;
               info = (if static then info\<lparr>static_fields := static_fields info @ [field]\<rparr>
                       else info\<lparr>fields' := fields' info @ [field]\<rparr>)
           in st\<lparr>type_infos := (type_infos st)[i := info], pending_field := False\<rparr>))"

function pop_contexts :: "int \<Rightarrow> Context list \<Rightarrow> nat option \<Rightarrow> Context list \<times> nat option" where
  \<comment> \<open>the \<open>while contexts and contexts[-1].entered and ...\<close> loop\<close>
  "pop_contexts depth ctxs cur =
     (if ctxs \<noteq> [] \<and> entered (last ctxs) \<and> depth < pop_depth (last ctxs)
      then (let popped = last ctxs;
                ctxs = butlast ctxs;
                cur = (if ctx_kind popped = CType
                       then (case find (\<lambda>ctx. ctx_kind ctx = CType \<and> entered ctx) (rev ctxs) of
                               None \<Rightarrow> None
                             | Some ctx \<Rightarrow> type_info ctx)
                       else cur)
            in pop_contexts depth ctxs cur)
      else (ctxs, cur))"
  by pat_completeness auto
termination
  by (relation "measure (\<lambda>(depth, ctxs, cur). length ctxs)") auto

declare pop_contexts.simps [simp del]

definition close_contexts :: "int \<Rightarrow> scan_state \<Rightarrow> scan_state" where
  \<comment> \<open>the end of the loop body: the new depth, the \<open>entered\<close> marks, the pops\<close>
  "close_contexts new_depth st =
     (let ctxs = map (\<lambda>ctx. if \<not> entered ctx \<and> new_depth \<ge> pop_depth ctx
                             then ctx\<lparr>entered := True\<rparr> else ctx) (contexts st);
          (ctxs, cur) = pop_contexts new_depth ctxs (current_type st)
      in st\<lparr>brace_depth := new_depth, contexts := ctxs, current_type := cur\<rparr>)"

definition scan_branch :: "scan_state \<Rightarrow> string \<Rightarrow> nat \<Rightarrow> int \<Rightarrow> error + scan_state" where
  \<comment> \<open>the \<open>if namespace_match ... elif ...\<close> chain of the loop body\<close>
  "scan_branch st stripped open_braces new_depth =
     (case rx_match NAMESPACE_RE stripped of
        Some g \<Rightarrow>
          Inr (st\<lparr>contexts := contexts st @
                 [\<lparr>ctx_kind = CNamespace,
                   ctx_name = (case group g ''1'' of None \<Rightarrow> [] | Some t \<Rightarrow> t),
                   pop_depth = block_depth open_braces new_depth (brace_depth st),
                   type_info = None, entered = open_braces > 0\<rparr>]\<rparr>)
      | None \<Rightarrow>
          (case rx_match TYPE_RE stripped of
             Some g \<Rightarrow> open_type st g open_braces new_depth
           | None \<Rightarrow>
               (if rx_search FIELD_OFFSET_RE stripped
                then Inr (st\<lparr>pending_field := True\<rparr>)
                else if pending_field st \<and> current_type st \<noteq> None \<and> stripped \<noteq> [] \<and>
                        \<not> startswith stripped ''[''
                then Inr (add_field st (the (current_type st)) stripped)
                else Inr st)))"

definition scan_line :: "scan_state \<Rightarrow> string \<Rightarrow> error + scan_state" where
  \<comment> \<open>the body of \<open>for raw_line in stream\<close>\<close>
  "scan_line st raw_line =
     (let line = rstrip raw_line;
          stripped = strip line;
          open_braces = count_list line CHR ''{'';
          close_braces = count_list line CHR ''}'';
          new_depth = brace_depth st + int open_braces - int close_braces
      in case scan_branch st stripped open_braces new_depth of
           Inl e \<Rightarrow> Inl e
         | Inr st \<Rightarrow> Inr (close_contexts new_depth st))"

fun scan_lines :: "scan_state \<Rightarrow> string list \<Rightarrow> error + scan_state" where
  "scan_lines st [] = Inr st"
| "scan_lines st (raw_line # rest) =
     (case scan_line st raw_line of Inl e \<Rightarrow> Inl e | Inr st \<Rightarrow> scan_lines st rest)"

function read_lines :: "string \<Rightarrow> string \<Rightarrow> string list" where
  \<comment> \<open>the lines of a text stream with universal newlines, without their line ends;
      the first argument is the line read so far\<close>
  "read_lines cur [] = (if cur = [] then [] else [cur])"
| "read_lines cur (c # cs) =
     (if c = CHR 0x0A then cur # read_lines [] cs
      else if c = CHR 0x0D
      then cur # read_lines [] (case cs of [] \<Rightarrow> [] | d # ds \<Rightarrow> if d = CHR 0x0A then ds else cs)
      else read_lines (cur @ [c]) cs)"
  by pat_completeness auto
termination
  by (relation "measure (\<lambda>(cur, s). length s)") (auto split: list.splits)

definition initial_scan :: scan_state where
  "initial_scan = \<lparr>type_infos = [], alias_map = Map.empty, contexts = [], brace_depth = 0,
                    pending_field = False, current_type = None\<rparr>"

definition parse_dump :: "string \<Rightarrow> error + TypeInfo list \<times> AliasMap" where
  \<comment> \<open>the argument is the decoded text of the file at \<open>dump_path\<close>\<close>
  "parse_dump text =
     (case scan_lines initial_scan (read_lines [] text) of
        Inl e \<Rightarrow> Inl e
      | Inr st \<Rightarrow> Inr (type_infos st, alias_map st))"

section \<open>Resolving the field types\<close>

definition resolve_field :: "TypeInfo list \<Rightarrow> AliasMap \<Rightarrow> Field \<Rightarrow> Field" where
  "resolve_field tis am field =
     (let (c, r) = convert_type tis (original_type field) am
      in field\<lparr>c_type := Some c, referenced := r\<rparr>)"

text \<open>
  \<open>resolve_field_types\<close> updates every field in place. \<open>convert_type\<close> reads only the
  kind, the enum base and the structure name of a type, which the update leaves alone, so
  the arena before the update serves for the look-ups.
\<close>

definition resolve_field_types :: "TypeInfo list \<Rightarrow> AliasMap \<Rightarrow> TypeInfo list" where
  "resolve_field_types tis am =
     map (\<lambda>info. info\<lparr>fields' := map (resolve_field tis am) (fields' info),
                       static_fields := map (resolve_field tis am) (static_fields info)\<rparr>) tis"

section \<open>Rendering\<close>

definition NL :: string where
  "NL = [CHR 0x0A]"

definition TAB :: string where
  "TAB = [CHR 0x09]"

definition render_field :: "Field \<Rightarrow> string" where
  \<comment> \<open>one round of the loops over the fields; a field without a native type is skipped\<close>
  "render_field field =
     (case c_type field of
        None \<Rightarrow> []
      | Some c \<Rightarrow> if c = [] then [] else TAB @ c @ '' '' @ name field @ '';'' @ NL)"

definition parent_decl :: "TypeInfo list \<Rightarrow> AliasMap \<Rightarrow> TypeInfo \<Rightarrow> string option" where
  "parent_decl tis am info =
     (case parent info of
        None \<Rightarrow> None
      | Some p \<Rightarrow>
          (if p = [] then None
           else case AliasMap_resolve am p of
                  None \<Rightarrow> None
                | Some r \<Rightarrow>
                    (let parent_info = tis ! r
                     in if \<not> is_enum parent_info \<and> struct_name parent_info \<noteq> struct_name info
                        then Some (struct_name parent_info) else None)))"

definition render_type :: "TypeInfo list \<Rightarrow> AliasMap \<Rightarrow> TypeInfo \<Rightarrow> string" where
  "render_type tis am info =
     (if fields' info = [] \<and> static_fields info = [] then []
      else
        (let fields_struct_name = struct_name info @ ''_Fields''
         in (case parent_decl tis am info of
               None \<Rightarrow> ''struct '' @ fields_struct_name @ NL @ ''{'' @ NL
             | Some pd \<Rightarrow>
                 if pd = [] then ''struct '' @ fields_struct_name @ NL @ ''{'' @ NL
                 else ''struct '' @ fields_struct_name @ '' : '' @ pd @ ''_Fields'' @ NL @ ''{'' @ NL)
            @ concat (map render_field (fields' info))
            @ ''};'' @ NL @ NL
            @ ''struct '' @ struct_name info @ ''_c'' @ NL @ ''{'' @ NL
            @ TAB @ ''Il2CppClass_1 _1;'' @ NL
            @ (if static_fields info \<noteq> []
               then TAB @ struct_name info @ ''_StaticFields* static_fields;'' @ NL
               else TAB @ ''void* static_fields;'' @ NL)
            @ TAB @ ''Il2CppRGCTXData* rgctx_data;'' @ NL
            @ TAB @ ''Il2CppClass_2 _2;'' @ NL
            @ TAB @ ''VirtualInvokeData vtable[32];'' @ NL
            @ ''};'' @ NL @ NL
            @ ''struct '' @ struct_name info @ ''_o'' @ NL @ ''{'' @ NL
            @ (if \<not> is_value_type info
               then TAB @ struct_name info @ ''_c *klass;'' @ NL @ TAB @ ''void *monitor;'' @ NL
               else [])
            @ TAB @ fields_struct_name @ '' fields;'' @ NL
            @ ''};'' @ NL @ NL
            @ (if static_fields info \<noteq> []
               then ''struct '' @ struct_name info @ ''_StaticFields'' @ NL @ ''{'' @ NL
                    @ concat (map render_field (static_fields info))
                    @ ''};'' @ NL @ NL
               else [])))"

section \<open>Emission\<close>

text \<open>
  The state of \<open>generate_header\<close> that \<open>emit\<close> updates: the set \<open>emitted\<close> and the list
  \<open>chunks\<close>. The list \<open>order\<close> is a history variable that the code does not have: it
  records, for each chunk, the arena position of the type the chunk was rendered from.
\<close>

record emit_state =
  emitted :: "string set"
  chunks :: "string list"
  order :: "nat list"

text \<open>
  \<open>emit\<close> is recursive without a bound of its own. The first argument bounds the depth of
  the recursion: \<open>emit (Suc n)\<close> may nest \<open>n\<close> further calls, and \<open>None\<close> says that the
  bound was reached. A call of the code returns exactly when some bound is enough.
\<close>

fun emit :: "nat \<Rightarrow> TypeInfo list \<Rightarrow> AliasMap \<Rightarrow> nat \<Rightarrow> emit_state \<Rightarrow> emit_state option"
  and emit_fields ::
    "nat \<Rightarrow> TypeInfo list \<Rightarrow> AliasMap \<Rightarrow> Field list \<Rightarrow> emit_state \<Rightarrow> emit_state option"
where
  "emit 0 tis am i st = None"
| "emit (Suc n) tis am i st =
     (let info = tis ! i
      in if is_enum info then Some st
         else if struct_name info \<in> emitted st then Some st
         else
           (case (case parent info of
                    None \<Rightarrow> Some st
                  | Some p \<Rightarrow>
                      (if p = [] then Some st
                       else case AliasMap_resolve am p of
                              None \<Rightarrow> Some st
                            | Some parent_info \<Rightarrow> emit n tis am parent_info st)) of
              None \<Rightarrow> None
            | Some st \<Rightarrow>
                (case emit_fields n tis am (fields' info @ static_fields info) st of
                   None \<Rightarrow> None
                 | Some st \<Rightarrow>
                     Some (st\<lparr>chunks := chunks st @ [render_type tis am info],
                              emitted := insert (struct_name info) (emitted st),
                              order := order st @ [i]\<rparr>))))"
| "emit_fields n tis am [] st = Some st"
| "emit_fields n tis am (field # rest) st =
     (case referenced field of
        None \<Rightarrow> emit_fields n tis am rest st
      | Some r \<Rightarrow>
          (case emit n tis am r st of
             None \<Rightarrow> None
           | Some st \<Rightarrow> emit_fields n tis am rest st))"

fun emit_all ::
  "nat \<Rightarrow> TypeInfo list \<Rightarrow> AliasMap \<Rightarrow> nat list \<Rightarrow> emit_state \<Rightarrow> emit_state option" where
  \<comment> \<open>\<open>for info in type_infos: emit(info)\<close>\<close>
  "emit_all n tis am [] st = Some st"
| "emit_all n tis am (i # rest) st =
     (case emit n tis am i st of
        None \<Rightarrow> None
      | Some st \<Rightarrow> emit_all n tis am rest st)"

section \<open>The header\<close>

text \<open>
  The texts of \<open>GENERIC_HEADER\<close> and of the six entries of \<open>HEADER_VARIANTS\<close> are long
  constants that nothing below looks into; they are parameters of the model.
\<close>

record templates =
  GENERIC_HEADER :: string
  variant_text :: "string \<Rightarrow> string"

definition HEADER_VARIANTS :: "templates \<Rightarrow> string \<rightharpoonup> string" where
  "HEADER_VARIANTS tpl version =
     (if version \<in> {''22'', ''24'', ''24.1'', ''24.2'', ''27'', ''29''}
      then Some (variant_text tpl version) else None)"

definition initial_emit :: emit_state where
  "initial_emit = \<lparr>emitted = {}, chunks = [], order = []\<rparr>"

definition generate_header ::
  "templates \<Rightarrow> nat \<Rightarrow> TypeInfo list \<Rightarrow> AliasMap \<Rightarrow> string \<Rightarrow> (error + string) option" where
  \<comment> \<open>\<open>None\<close>: the recursion of \<open>emit\<close> did not return within the bound\<close>
  "generate_header tpl n tis0 am header_version =
     (let tis = resolve_field_types tis0 am
      in case emit_all n tis am [0..<length tis] initial_emit of
           None \<Rightarrow> None
         | Some st \<Rightarrow>
             Some (case HEADER_VARIANTS tpl header_version of
                     None \<Rightarrow> Inl (ValueError (''Unsupported header version: '' @ header_version))
                   | Some variant \<Rightarrow>
                       if variant = []
                       then Inl (ValueError (''Unsupported header version: '' @ header_version))
                       else Inr (concat ([GENERIC_HEADER tpl, variant] @ chunks st))))"

section \<open>The command line\<close>

record args =
  dump_arg :: string
  output_arg :: string
  header_version_arg :: string

type_synonym files = "string \<rightharpoonup> string"

definition parse_args :: "templates \<Rightarrow> args \<Rightarrow> error + args" where
  \<comment> \<open>\<open>argparse\<close> refuses a \<open>--header-version\<close> outside \<open>choices\<close> and exits with status 2\<close>
  "parse_args tpl argv =
     (if header_version_arg argv \<in> dom (HEADER_VARIANTS tpl) then Inr argv
      else Inl (SystemExit ''2''))"

definition main :: "templates \<Rightarrow> nat \<Rightarrow> args \<Rightarrow> files \<Rightarrow> ((error + unit) \<times> files) option" where
  \<comment> \<open>the result is the outcome of the run and the files after it\<close>
  "main tpl n argv fs =
     (case parse_args tpl argv of
        Inl e \<Rightarrow> Some (Inl e, fs)
      | Inr a \<Rightarrow>
          (case fs (dump_arg a) of
             None \<Rightarrow> Some (Inl (SystemExit (''dump.cs not found: '' @ dump_arg a)), fs)
           | Some text \<Rightarrow>
               (case parse_dump text of
                  Inl e \<Rightarrow> Some (Inl e, fs)
                | Inr (tis, am) \<Rightarrow>
                    if tis = []
                    then Some (Inl (SystemExit
                                 ''No types discovered in dump.cs; is the file valid?''), fs)
                    else (case generate_header tpl n tis am (header_version_arg a) of
                            None \<Rightarrow> None
                          | Some (Inl e) \<Rightarrow> Some (Inl e, fs)
                          | Some (Inr header_text) \<Rightarrow>
                              Some (Inr (), fs(output_arg a \<mapsto> header_text))))))"

section \<open>Auxiliary notions for the statements\<close>

subsection \<open>Shapes of sanitized names\<close>

text \<open>
  The predicates and abbreviations below describe what the two sanitization functions
  produce; they are used to state and prove their properties only.
\<close>

fun no_double_us :: "string \<Rightarrow> bool" where
  "no_double_us (a # b # cs) = (\<not> (a = CHR ''_'' \<and> b = CHR ''_'') \<and> no_double_us (b # cs))"
| "no_double_us cs = True"

definition struct_special :: "char set" where
  "struct_special = set ''.:-][ ,><`/+''"

definition struct_pre :: "string \<Rightarrow> string" where
  "struct_pre nm =
     replace ''.'' ''_'' (replace '':'' ''_'' (replace ''-'' ''_'' (replace '']'' ''''
       (replace ''['' ''_'' (replace '' '' ''_'' (replace '','' ''_'' (replace ''>'' ''''
         (replace ''<'' ''_'' (replace ''`'' ''_'' (replace '' `'' ''`'' (replace ''/'' ''.''
           (replace ''+'' ''.'' (replace ''::'' ''.'' nm)))))))))))))"

definition ident_pre :: "string \<Rightarrow> string" where
  "ident_pre nm =
     (let candidate = strip nm;
          candidate = (if startswith candidate ''@'' then tl candidate else candidate);
          candidate = replace ''>'' ''_'' (replace ''<'' ''_'' candidate)
      in collapse_underscores (map (\<lambda>c. if ident_char c then c else CHR ''_'') candidate))"

definition fields_named :: "TypeInfo list \<Rightarrow> bool" where
  \<comment> \<open>every field of every type has a non-empty name\<close>
  "fields_named tis =
     (\<forall>info \<in> set tis. \<forall>field \<in> set (fields' info @ static_fields info). name field \<noteq> [])"

definition field_dump :: string where
  \<comment> \<open>a class with one field whose name is only the verbatim marker\<close>
  "field_dump = concat (map (\<lambda>l. l @ NL)
     [''class Foo'', ''{'', ''[FieldOffset(0x10)]'', ''public int @;'', ''}''])"

definition example_templates :: templates where
  \<comment> \<open>short stand-ins for the header texts\<close>
  "example_templates =
     \<lparr>GENERIC_HEADER = ''typedef void(*Il2CppMethodPointer)();'' @ NL,
      variant_text = (\<lambda>version. ''struct Il2CppClass_1;'' @ NL)\<rparr>"

definition cycle_dump :: string where
  \<comment> \<open>two structs, each with a field of the other's type\<close>
  "cycle_dump = concat (map (\<lambda>l. l @ NL)
     [''struct A'', ''{'', ''[FieldOffset(0)]'', ''public B b;'', ''}'',
      ''struct B'', ''{'', ''[FieldOffset(0)]'', ''public A a;'', ''}''])"

definition cycle_resolved :: "TypeInfo list" where
  \<comment> \<open>the types of \<open>cycle_dump\<close> after \<open>resolve_field_types\<close>\<close>
  "cycle_resolved =
     [\<lparr>full_name = ''A'', short_name = ''A'', struct_name = ''A'', kind = KStruct,
       parent = None, enum_base = None,
       fields' = [\<lparr>name = ''b'', original_type = ''B'', is_static = False,
                   c_type = Some ''B_o'', referenced = Some 1\<rparr>],
       static_fields = []\<rparr>,
      \<lparr>full_name = ''B'', short_name = ''B'', struct_name = ''B'', kind = KStruct,
       parent = None, enum_base = None,
       fields' = [\<lparr>name = ''a'', original_type = ''A'', is_static = False,
                   c_type = Some ''A_o'', referenced = Some 0\<rparr>],
       static_fields = []\<rparr>]"

text \<open>The two halves of the body of \<open>emit\<close>, named for the proofs.\<close>

definition parent_step ::
  "(nat \<Rightarrow> emit_state \<Rightarrow> emit_state option) \<Rightarrow> AliasMap \<Rightarrow> TypeInfo \<Rightarrow> emit_state \<Rightarrow>
   emit_state option" where
  "parent_step rec am info st =
     (case parent info of
        None \<Rightarrow> Some st
      | Some p \<Rightarrow>
          (if p = [] then Some st
           else case AliasMap_resolve am p of
                  None \<Rightarrow> Some st
                | Some parent_info \<Rightarrow> rec parent_info st))"

definition finish :: "TypeInfo list \<Rightarrow> AliasMap \<Rightarrow> nat \<Rightarrow> emit_state \<Rightarrow> emit_state" where
  "finish tis am i st =
     st\<lparr>chunks := chunks st @ [render_type tis am (tis ! i)],
        emitted := insert (struct_name (tis ! i)) (emitted st),
        order := order st @ [i]\<rparr>"

definition alias_inv :: "TypeInfo list \<Rightarrow> AliasMap \<Rightarrow> bool" where
  \<comment> \<open>what the alias map holds for the short names of the types discovered so far\<close>
  "alias_inv tis m =
     ((\<forall>i < length tis.
         m (normalise_type_name (short_name (tis ! i))) \<in> {Some (Some i), Some None}) \<and>
      (\<forall>k v. m k = Some (Some v) \<longrightarrow> v < length tis) \<and>
      (\<forall>i j. i < j \<and> j < length tis \<and> short_name (tis ! i) = short_name (tis ! j) \<longrightarrow>
         m (normalise_type_name (short_name (tis ! i))) = Some None))"

definition primitive_clash_dump :: string where
  \<comment> \<open>two structs with the short name \<open>Int32\<close>, and a field declared \<open>Int32\<close>\<close>
  "primitive_clash_dump = concat (map (\<lambda>l. l @ NL)
     [''namespace A {'', ''struct Int32 {'', ''}'', ''}'',
      ''namespace B {'', ''struct Int32 {'', ''[FieldOffset(0)]'', ''public Int32 v;'', ''}'',
      ''}''])"

definition clash_dump :: string where
  \<comment> \<open>two structs with the short name \<open>Foo\<close>\<close>
  "clash_dump = concat (map (\<lambda>l. l @ NL)
     [''namespace A {'', ''struct Foo {'', ''}'', ''}'',
      ''namespace B {'', ''struct Foo {'', ''}'', ''}''])"

definition depends :: "TypeInfo list \<Rightarrow> AliasMap \<Rightarrow> nat \<Rightarrow> nat \<Rightarrow> bool" where
  \<comment> \<open>\<open>depends tis am b a\<close>: the type at \<open>a\<close> is the resolvable parent of the type at \<open>b\<close>, or
      the dependency that \<open>convert_type\<close> returned for one of its fields\<close>
  "depends tis am b a =
     ((case parent (tis ! b) of
         None \<Rightarrow> False
       | Some p \<Rightarrow> p \<noteq> [] \<and> AliasMap_resolve am p = Some a) \<or>
      Some a \<in> set (map referenced (fields' (tis ! b) @ static_fields (tis ! b))))"

definition satisfied :: "TypeInfo list \<Rightarrow> emit_state \<Rightarrow> nat \<Rightarrow> bool" where
  \<comment> \<open>a call of \<open>emit\<close> on the type at \<open>a\<close> would return at once\<close>
  "satisfied tis st a = (is_enum (tis ! a) \<or> struct_name (tis ! a) \<in> emitted st)"

definition emit_inv :: "TypeInfo list \<Rightarrow> AliasMap \<Rightarrow> emit_state \<Rightarrow> bool" where
  \<comment> \<open>what holds of the state of \<open>generate_header\<close> between the calls of \<open>emit\<close>\<close>
  "emit_inv tis am st =
     (emitted st = (\<lambda>i. struct_name (tis ! i)) ` set (order st) \<and>
      chunks st = map (\<lambda>i. render_type tis am (tis ! i)) (order st) \<and>
      (\<forall>i \<in> set (order st). \<not> is_enum (tis ! i)) \<and>
      (\<forall>q < length (order st). \<forall>a. depends tis am (order st ! q) a \<longrightarrow>
         is_enum (tis ! a) \<or>
         struct_name (tis ! a) \<in> (\<lambda>i. struct_name (tis ! i)) ` set (take q (order st))))"

definition collision_dump :: string where
  \<comment> \<open>the struct \<open>A_B\<close> has a field of the struct \<open>A.B\<close>; both get the structure name \<open>A_B\<close>\<close>
  "collision_dump = concat (map (\<lambda>l. l @ NL)
     [''struct A_B {'', ''[FieldOffset(0)]'', ''public A.B inner;'', ''}'',
      ''namespace A {'', ''struct B {'', ''[FieldOffset(0)]'', ''public int x;'', ''}'', ''}''])"

definition shadow_dump :: string where
  \<comment> \<open>\<open>N.A\<close> and \<open>N_A\<close> share the structure name \<open>N_A\<close>; \<open>N.A\<close> and \<open>B\<close> hold each other\<close>
  "shadow_dump = concat (map (\<lambda>l. l @ NL)
     [''namespace N {'', ''struct A {'', ''[FieldOffset(0)]'', ''public N_A c;'',
      ''[FieldOffset(8)]'', ''public B b;'', ''}'', ''}'',
      ''struct N_A {'', ''[FieldOffset(0)]'', ''public int x;'', ''}'',
      ''struct B {'', ''[FieldOffset(0)]'', ''public N.A a;'', ''}''])"

definition scenario_dump :: string where
  \<comment> \<open>the class \<open>A.Foo\<close> derives from the class \<open>Bar\<close>, which the dump declares after it\<close>
  "scenario_dump = concat (map (\<lambda>l. l @ NL)
     [''namespace A {'', ''class Foo : Bar {'', ''[FieldOffset(0x10)]'', ''public int x;'', ''}'',
      ''}'',
      ''class Bar {'', ''[FieldOffset(0x8)]'', ''public bool y;'', ''}''])"

text \<open>Names for the results of the pipeline on a dump, for the statements on examples.\<close>

definition parsed :: "string \<Rightarrow> TypeInfo list \<times> AliasMap" where
  \<comment> \<open>the types and the alias map of a dump on which \<open>parse_dump\<close> raises nothing\<close>
  "parsed dump_text = (case parse_dump dump_text of Inl e \<Rightarrow> ([], Map.empty) | Inr r \<Rightarrow> r)"

definition resolved :: "string \<Rightarrow> TypeInfo list" where
  \<comment> \<open>the types of a dump after \<open>resolve_field_types\<close>\<close>
  "resolved dump_text = resolve_field_types (fst (parsed dump_text)) (snd (parsed dump_text))"

definition emission :: "nat \<Rightarrow> string \<Rightarrow> emit_state option" where
  \<comment> \<open>the state of \<open>generate_header\<close> after its loop over the types of a dump\<close>
  "emission n dump_text =
     emit_all n (resolved dump_text) (snd (parsed dump_text))
       [0..<length (resolved dump_text)] initial_emit"

definition group_of :: "string \<Rightarrow> nat \<Rightarrow> string" where
  \<comment> \<open>the structure group of the type at a position of the arena of a dump\<close>
  "group_of dump_text i =
     render_type (resolved dump_text) (snd (parsed dump_text)) (resolved dump_text ! i)"

definition refs_in_range :: "scan_state \<Rightarrow> bool" where
  \<comment> \<open>the references that the scanner holds point into the arena\<close>
  "refs_in_range st =
     ((\<forall>ctx \<in> set (contexts st). ctx_kind ctx = CType \<longrightarrow>
         (\<exists>i. type_info ctx = Some i \<and> i < length (type_infos st))) \<and>
      (\<forall>i. current_type st = Some i \<longrightarrow> i < length (type_infos st)))"

section \<open>Properties of the string operations\<close>

lemma replace_Nil: "old \<noteq> [] \<Longrightarrow> replace old new [] = []"
  by (subst replace.simps) simp

lemma replace_Cons:
  "old \<noteq> [] \<Longrightarrow> replace old new (a # s) =
     (if prefix old (a # s) then new @ replace old new (drop (length old) (a # s))
      else a # replace old new s)"
  by (subst replace.simps) simp

lemma replace_single:
  "replace [c] new s = concat (map (\<lambda>x. if x = c then new else [x]) s)"
  by (induction s) (auto simp: replace_Nil replace_Cons)

lemma replace_absent:
  "old \<noteq> [] \<Longrightarrow> hd old \<notin> set s \<Longrightarrow> replace old new s = s"
proof (induction s)
  case Nil
  then show ?case by (simp add: replace_Nil)
next
  case (Cons a s)
  then have "\<not> prefix old (a # s)"
    by (cases old) auto
  with Cons show ?case by (simp add: replace_Cons)
qed

lemma set_replace:
  "old \<noteq> [] \<Longrightarrow> set (replace old new s) \<subseteq> set s \<union> set new"
proof (induction old new s rule: replace.induct)
  case (1 old new s)
  show ?case
  proof (cases s)
    case Nil
    then show ?thesis using 1 by (simp add: replace_Nil)
  next
    case (Cons a t)
    show ?thesis
    proof (cases "prefix old s")
      case True
      have "set (drop (length old) s) \<subseteq> set s" by (rule set_drop_subset)
      with 1 True Cons show ?thesis by (auto simp: replace_Cons)
    next
      case False
      with 1 Cons show ?thesis by (auto simp: replace_Cons)
    qed
  qed
qed

lemma set_replace_single:
  "set (replace [c] new s) \<subseteq> (set s - {c}) \<union> set new"
  by (auto simp: replace_single split: if_splits)

lemma collapse_hd: "collapse_underscores (a # s) \<noteq> [] \<and> hd (collapse_underscores (a # s)) = a"
  by (induction s arbitrary: a) auto

lemma collapse_no_double: "no_double_us (collapse_underscores s)"
proof (induction s rule: collapse_underscores.induct)
  case (1 a b cs)
  obtain t where t: "collapse_underscores (b # cs) = b # t"
    using collapse_hd[of b cs] by (cases "collapse_underscores (b # cs)") auto
  with 1 show ?case by auto
qed simp_all

lemma collapse_id: "no_double_us s \<Longrightarrow> collapse_underscores s = s"
  by (induction s rule: collapse_underscores.induct) auto

lemma set_collapse: "set (collapse_underscores s) \<subseteq> set s"
  by (induction s rule: collapse_underscores.induct) auto

lemma no_double_tl: "no_double_us s \<Longrightarrow> no_double_us (tl s)"
  by (cases s rule: no_double_us.cases) auto

lemma replace_clears:
  "set new \<inter> insert c F = {} \<Longrightarrow> set s \<inter> F = {} \<Longrightarrow>
   set (replace [c] new s) \<inter> insert c F = {}"
  using set_replace_single[of c new s] by auto

lemma replace_keeps_clear:
  "set new \<inter> F = {} \<Longrightarrow> old \<noteq> [] \<Longrightarrow> set s \<inter> F = {} \<Longrightarrow>
   set (replace old new s) \<inter> F = {}"
  using set_replace[of old new s] by auto

lemma sanitize_struct_name_alt:
  "sanitize_struct_name nm =
     (let c = collapse_underscores (struct_pre nm)
      in if startswith c ''_'' then tl c else c)"
  by (simp add: sanitize_struct_name_def struct_pre_def Let_def)

lemma struct_pre_clear: "set (struct_pre nm) \<inter> struct_special = {}"
  unfolding struct_pre_def struct_special_def set_simps
  apply (rule replace_clears, simp)+
  apply (rule replace_keeps_clear, simp, simp)
  apply (rule replace_clears, simp)+
  apply simp
  done

lemma struct_fixed:
  assumes "set t \<inter> struct_special = {}" "no_double_us t" "\<not> startswith t ''_''"
  shows "sanitize_struct_name t = t"
proof -
  have "struct_pre t = t"
    using assms(1) unfolding struct_pre_def struct_special_def
    by (simp add: replace_absent)
  then show ?thesis
    using assms(2,3) by (simp add: sanitize_struct_name_alt collapse_id)
qed

lemma no_double_not_us_tl:
  "no_double_us s \<Longrightarrow> startswith s ''_'' \<Longrightarrow> \<not> startswith (tl s) ''_''"
  by (cases s rule: no_double_us.cases) (auto simp: startswith_def)

lemma sanitize_struct_name_idem:
  "sanitize_struct_name (sanitize_struct_name s) = sanitize_struct_name s"
proof -
  define c where "c = collapse_underscores (struct_pre s)"
  have clear: "set c \<inter> struct_special = {}"
    using set_collapse[of "struct_pre s"] struct_pre_clear[of s] unfolding c_def by auto
  have nd: "no_double_us c" unfolding c_def by (rule collapse_no_double)
  show ?thesis
  proof (cases "startswith c ''_''")
    case True
    then have eq: "sanitize_struct_name s = tl c"
      by (simp add: sanitize_struct_name_alt c_def)
    have "set (tl c) \<subseteq> set c" by (cases c) auto
    with clear have "set (tl c) \<inter> struct_special = {}" by auto
    then show ?thesis
      unfolding eq using nd True
      by (intro struct_fixed no_double_tl no_double_not_us_tl)
  next
    case False
    then have eq: "sanitize_struct_name s = c"
      by (simp add: sanitize_struct_name_alt c_def)
    show ?thesis unfolding eq using clear nd False by (rule struct_fixed)
  qed
qed

lemma sanitize_identifier_alt:
  "sanitize_identifier nm =
     (let sanitized = ident_pre nm;
          sanitized = (if sanitized \<noteq> [] \<and> isdigit (hd sanitized)
                       then CHR ''_'' # sanitized else sanitized)
      in if sanitized \<noteq> [] then sanitized else ''field'')"
  by (simp add: sanitize_identifier_def ident_pre_def Let_def)

lemma ident_char_us: "ident_char (CHR ''_'')"
  by (simp add: ident_char_def)

lemma ident_pre_chars: "\<forall>c \<in> set (ident_pre nm). ident_char c"
proof -
  have "\<forall>c \<in> set (map (\<lambda>c. if ident_char c then c else CHR ''_'') xs). ident_char c" for xs
    using ident_char_us by auto
  then show ?thesis
    unfolding ident_pre_def Let_def using set_collapse by blast
qed

lemma ident_pre_no_double: "no_double_us (ident_pre nm)"
  unfolding ident_pre_def Let_def by (rule collapse_no_double)

lemma ident_not_space: "ident_char c \<Longrightarrow> \<not> isspace c"
  unfolding ident_char_def isspace_def by (elim disjE | simp)+

lemma ident_not_markup:
  "ident_char c \<Longrightarrow> c \<noteq> CHR ''@'' \<and> c \<noteq> CHR ''<'' \<and> c \<noteq> CHR ''>''"
  unfolding ident_char_def by (elim disjE | simp)+

lemma isdigit_not_us: "isdigit c \<Longrightarrow> c \<noteq> CHR ''_''"
  unfolding isdigit_def by (elim disjE | simp)+

lemma not_isdigit_us: "\<not> isdigit (CHR ''_'')"
  by (simp add: isdigit_def)

lemma strip_id:
  assumes "\<forall>c \<in> set t. \<not> isspace c"
  shows "strip t = t"
proof -
  have dw: "dropWhile isspace xs = xs" if "\<forall>c \<in> set xs. \<not> isspace c" for xs
    using that by (cases xs) auto
  have "dropWhile isspace (rev t) = rev t"
    using assms by (intro dw) simp
  then have "rstrip t = t" by (simp add: rstrip_def)
  moreover have "lstrip t = t"
    using assms by (simp add: lstrip_def dw)
  ultimately show ?thesis by (simp add: strip_def)
qed

lemma ident_fixed:
  assumes chars: "\<forall>c \<in> set t. ident_char c" and nd: "no_double_us t"
    and ne: "t \<noteq> []" and dg: "\<not> isdigit (hd t)"
  shows "sanitize_identifier t = t"
proof -
  have sp: "strip t = t" using chars by (intro strip_id) (auto dest: ident_not_space)
  have at: "\<not> startswith t ''@''"
    using chars ne ident_not_markup by (cases t) (auto simp: startswith_def)
  have lt: "CHR ''<'' \<notin> set t" and gt: "CHR ''>'' \<notin> set t"
    using chars ident_not_markup by blast+
  have mp: "map (\<lambda>c. if ident_char c then c else CHR ''_'') t = t"
    using chars by (induction t) auto
  have "ident_pre t = t"
    by (simp add: ident_pre_def Let_def sp at replace_absent lt gt mp collapse_id nd)
  then show ?thesis using ne dg by (simp add: sanitize_identifier_alt)
qed

lemma sanitize_identifier_nonempty: "sanitize_identifier s \<noteq> []"
  by (simp add: sanitize_identifier_alt Let_def)

lemma sanitize_identifier_idem:
  "sanitize_identifier (sanitize_identifier s) = sanitize_identifier s"
proof -
  define p where "p = ident_pre s"
  have chars: "\<forall>c \<in> set p. ident_char c" unfolding p_def by (rule ident_pre_chars)
  have nd: "no_double_us p" unfolding p_def by (rule ident_pre_no_double)
  consider (empty) "p = []" | (digit) "p \<noteq> []" "isdigit (hd p)" | (plain) "p \<noteq> []" "\<not> isdigit (hd p)"
    by blast
  then show ?thesis
  proof cases
    case empty
    then have eq: "sanitize_identifier s = ''field''"
      by (simp add: sanitize_identifier_alt p_def)
    show ?thesis unfolding eq
      by (rule ident_fixed) (simp_all add: ident_char_def isdigit_def)
  next
    case digit
    then have eq: "sanitize_identifier s = CHR ''_'' # p"
      by (simp add: sanitize_identifier_alt p_def)
    have "hd p \<noteq> CHR ''_''" using digit(2) by (rule isdigit_not_us)
    then have "no_double_us (CHR ''_'' # p)" using nd digit(1) by (cases p) auto
    then show ?thesis unfolding eq using chars ident_char_us not_isdigit_us
      by (intro ident_fixed) auto
  next
    case plain
    then have eq: "sanitize_identifier s = p"
      by (simp add: sanitize_identifier_alt p_def)
    show ?thesis unfolding eq using chars nd plain by (intro ident_fixed)
  qed
qed

lemma sanitize_identifier_at: "sanitize_identifier ''@'' = ''field''"
  by (simp add: sanitize_identifier_def strip_def lstrip_def rstrip_def isspace_def startswith_def replace_single)

lemma sanitize_identifier_empty: "sanitize_identifier '''' = ''field''"
  by (simp add: sanitize_identifier_def strip_def lstrip_def rstrip_def isspace_def startswith_def replace_single)

section \<open>Sanitization is idempotent\<close>

text \<open>
  Claim C8. Applying either sanitization to its own output changes nothing: for every
  string \<open>s\<close>, \<open>sanitize_struct_name (sanitize_struct_name s) = sanitize_struct_name s\<close>
  and \<open>sanitize_identifier (sanitize_identifier s) = sanitize_identifier s\<close>.
\<close>

theorem sanitization_idempotent:
  "sanitize_struct_name (sanitize_struct_name s) = sanitize_struct_name s \<and>
   sanitize_identifier (sanitize_identifier s) = sanitize_identifier s"
  by (simp add: sanitize_struct_name_idem sanitize_identifier_idem)

section \<open>Type resolution\<close>

lemma PRIMITIVE_MAP_nonempty: "PRIMITIVE_MAP k = Some v \<Longrightarrow> v \<noteq> []"
  unfolding PRIMITIVE_MAP_def by (drule map_of_SomeD) auto

lemma PRIMITIVE_MAP_IntPtr:
  "PRIMITIVE_MAP w = None \<Longrightarrow> w \<notin> {''IntPtr'', ''System.IntPtr''}"
  by (auto simp: PRIMITIVE_MAP_def)

lemma convert_type_nonempty: "fst (convert_type tis s am) \<noteq> []"
proof -
  obtain w suf cnt where b: "base_name s = (w, suf, cnt)"
    by (cases "base_name s") auto
  show ?thesis
  proof (cases "PRIMITIVE_MAP w")
    case (Some p)
    then show ?thesis
      using b PRIMITIVE_MAP_nonempty[OF Some] by (simp add: convert_type_def)
  next
    case None
    note prim = None
    show ?thesis
    proof (cases "AliasMap_resolve am w")
      case None
      then show ?thesis using b prim by (simp add: convert_type_def)
    next
      case (Some r)
      then show ?thesis using b prim
        by (auto simp: convert_type_def Let_def dest: PRIMITIVE_MAP_nonempty
                 split: option.splits)
    qed
  qed
qed

lemma convert_type_fallback:
  assumes "base_name s = (w, suf, cnt)" "PRIMITIVE_MAP w = None" "AliasMap_resolve am w = None"
  shows "convert_type tis s am =
           (if 0 < cnt then ''Il2CppArray*'' else ''Il2CppObject*'', None)"
  using assms PRIMITIVE_MAP_IntPtr[OF assms(2)] by (simp add: convert_type_def)

lemma array_result_shape:
  assumes "base_name s = (w, suf, cnt)" "0 < cnt"
  shows "convert_type tis s am =
           (''Il2CppArray*'',
            case PRIMITIVE_MAP w of
              Some primitive \<Rightarrow> None
            | None \<Rightarrow>
                (case AliasMap_resolve am w of
                   None \<Rightarrow> None
                 | Some r \<Rightarrow> if is_value_type (tis ! r) then Some r else None))"
  using assms by (simp add: convert_type_def Let_def split: option.splits)

text \<open>
  Claim C1, as stated, fails in its last part: an unresolvable base name does not always
  fall back to the opaque-object pointer. For the declared type \<open>Unknown[]\<close>, whose base
  name is neither a primitive nor in the alias map, \<open>convert_type\<close> returns the generic
  array type \<open>Il2CppArray*\<close>.
\<close>

theorem unresolved_array_name:
  "base_name ''Unknown[]'' = (''Unknown'', '''', 1) \<and> PRIMITIVE_MAP ''Unknown'' = None \<and>
   AliasMap_resolve Map.empty ''Unknown'' = None \<and>
   convert_type [] ''Unknown[]'' Map.empty = (''Il2CppArray*'', None)"
proof -
  have b: "base_name ''Unknown[]'' = (''Unknown'', '''', 1)" by code_simp
  have p: "PRIMITIVE_MAP ''Unknown'' = None" by code_simp
  have r: "AliasMap_resolve Map.empty ''Unknown'' = None"
    by (simp add: AliasMap_resolve_def dict_get_def)
  show ?thesis using b p r convert_type_fallback[OF b p r, of "[]"] by simp
qed

text \<open>
  Claim C1, amended. Resolution is total. \<open>convert_type\<close> has no operation that can raise
  (it slices, strips, replaces and looks up with \<open>dict.get\<close>), so its model is a total
  function with no error result; for every declared-type string, every arena and every
  alias map the native type expression it returns is non-empty. When the base name is
  neither a primitive nor resolvable through the alias map, the result has no dependency
  and is the opaque-object pointer \<open>Il2CppObject*\<close>, except that it is the generic array
  type \<open>Il2CppArray*\<close> when an array marker was stripped.
\<close>

theorem convert_type_total:
  "fst (convert_type tis s am) \<noteq> [] \<and>
   (base_name s = (w, suf, cnt) \<and> PRIMITIVE_MAP w = None \<and> AliasMap_resolve am w = None \<longrightarrow>
      convert_type tis s am = (if 0 < cnt then ''Il2CppArray*'' else ''Il2CppObject*'', None))"
  using convert_type_nonempty convert_type_fallback by blast

theorem convert_type_total_witness:
  "base_name ''Unknown<T>'' = (''Unknown<T>'', '''', 0) \<and> PRIMITIVE_MAP ''Unknown<T>'' = None \<and>
   AliasMap_resolve Map.empty ''Unknown<T>'' = None \<and>
   fst (convert_type [] ''Unknown<T>'' Map.empty) \<noteq> [] \<and>
   convert_type [] ''Unknown<T>'' Map.empty = (''Il2CppObject*'', None)"
proof -
  have b: "base_name ''Unknown<T>'' = (''Unknown<T>'', '''', 0)" by code_simp
  have p: "PRIMITIVE_MAP ''Unknown<T>'' = None" by code_simp
  have r: "AliasMap_resolve Map.empty ''Unknown<T>'' = None"
    by (simp add: AliasMap_resolve_def dict_get_def)
  show ?thesis
    using convert_type_total[of "[]" "''Unknown<T>''" Map.empty "''Unknown<T>''" "''''" 0] b p r
    by simp
qed

text \<open>
  Claim C2 fails on the code. With an array marker stripped the native type is
  \<open>Il2CppArray*\<close> with no pointer suffix, but the dependency is not dropped when the base
  name resolves to a value type: the array override replaces the native type and the
  suffix, and the \<open>return\<close> after it still hands back the element type. For the field type
  \<open>Vec[]\<close>, where \<open>Vec\<close> is a struct of the symbol table, \<open>convert_type\<close> returns the struct
  as the dependency.
\<close>

theorem array_keeps_dependency:
  "base_name ''Vec[]'' = (''Vec'', '''', 1) \<and>
   convert_type example_types ''Vec[]'' example_alias = (''Il2CppArray*'', Some 0)"
  by code_simp

section \<open>The references of the scanner\<close>

text \<open>
  The model reads a \<open>TypeInfo\<close> through its position in the arena. The scanner only ever
  holds positions of types it has appended, so these reads stay inside the list, as the
  attribute reads of the code always reach an object.
\<close>

lemma pop_contexts_result:
  "pop_contexts depth ctxs cur = (ctxs', cur') \<Longrightarrow>
   set ctxs' \<subseteq> set ctxs \<and>
   (cur' = cur \<or> cur' = None \<or>
    (\<exists>ctx \<in> set ctxs. ctx_kind ctx = CType \<and> type_info ctx = cur'))"
proof (induction ctxs arbitrary: cur rule: rev_induct)
  case Nil
  then show ?case by (subst (asm) pop_contexts.simps) simp
next
  case (snoc x xs)
  show ?case
  proof (cases "entered x \<and> depth < pop_depth x")
    case False
    then have "(ctxs', cur') = (xs @ [x], cur)"
      using snoc.prems by (subst (asm) pop_contexts.simps) auto
    then show ?thesis by simp
  next
    case True
    define cur1 where "cur1 = (if ctx_kind x = CType
        then (case find (\<lambda>ctx. ctx_kind ctx = CType \<and> entered ctx) (rev xs) of
                None \<Rightarrow> None | Some ctx \<Rightarrow> type_info ctx)
        else cur)"
    have "pop_contexts depth xs cur1 = (ctxs', cur')"
      using snoc.prems True unfolding cur1_def
      by (subst (asm) pop_contexts.simps) (auto simp: Let_def split: if_splits)
    from snoc.IH[OF this]
    have ih: "set ctxs' \<subseteq> set xs \<and>
         (cur' = cur1 \<or> cur' = None \<or>
          (\<exists>ctx \<in> set xs. ctx_kind ctx = CType \<and> type_info ctx = cur'))" .
    have c1: "cur1 = cur \<or> cur1 = None \<or>
        (\<exists>ctx \<in> set xs. ctx_kind ctx = CType \<and> type_info ctx = cur1)"
    proof (cases "ctx_kind x = CType")
      case False
      then show ?thesis by (simp add: cur1_def)
    next
      case True
      show ?thesis
      proof (cases "find (\<lambda>ctx. ctx_kind ctx = CType \<and> entered ctx) (rev xs)")
        case None
        then show ?thesis using True by (simp add: cur1_def)
      next
        case (Some ctx)
        have "x' \<in> set ys \<and> P x'" if "find P ys = Some x'" for P x' and ys :: "Context list"
          using that by (induction ys) (auto split: if_splits)
        from this[OF Some] have "ctx \<in> set xs" "ctx_kind ctx = CType"
          by simp_all
        then show ?thesis using True Some by (auto simp: cur1_def)
      qed
    qed
    show ?thesis using ih c1 by auto
  qed
qed

lemma close_contexts_refs:
  assumes "refs_in_range st"
  shows "refs_in_range (close_contexts d st)"
proof -
  define marked where "marked = map (\<lambda>ctx. if \<not> entered ctx \<and> d \<ge> pop_depth ctx
      then ctx\<lparr>entered := True\<rparr> else ctx) (contexts st)"
  obtain ctxs' cur' where pc: "pop_contexts d marked (current_type st) = (ctxs', cur')"
    by (cases "pop_contexts d marked (current_type st)")
  have res: "close_contexts d st = st\<lparr>brace_depth := d, contexts := ctxs', current_type := cur'\<rparr>"
    using pc by (simp add: close_contexts_def Let_def marked_def)
  have m: "\<forall>ctx \<in> set marked. ctx_kind ctx = CType \<longrightarrow>
      (\<exists>i. type_info ctx = Some i \<and> i < length (type_infos st))"
    using assms unfolding refs_in_range_def marked_def by auto
  from pop_contexts_result[OF pc] have sub: "set ctxs' \<subseteq> set marked"
    and cur: "cur' = current_type st \<or> cur' = None \<or>
        (\<exists>ctx \<in> set marked. ctx_kind ctx = CType \<and> type_info ctx = cur')"
    by blast+
  have "\<forall>i. cur' = Some i \<longrightarrow> i < length (type_infos st)"
    using cur m assms unfolding refs_in_range_def by auto
  then show ?thesis
    unfolding res refs_in_range_def using m sub by auto
qed

lemma scan_branch_refs:
  assumes "refs_in_range st" "scan_branch st stripped ob nd = Inr st'"
  shows "refs_in_range st'"
proof (cases "rx_match NAMESPACE_RE stripped")
  case (Some g)
  then show ?thesis using assms by (auto simp: scan_branch_def refs_in_range_def)
next
  case None
  note ns = None
  show ?thesis
  proof (cases "rx_match TYPE_RE stripped")
    case (Some g)
    then have ot: "open_type st g ob nd = Inr st'"
      using assms(2) ns by (simp add: scan_branch_def)
    then obtain info where "new_type_info st g = Inr info"
      by (cases "new_type_info st g") (auto simp: open_type_def)
    then show ?thesis
      using ot assms(1) unfolding refs_in_range_def
      by (auto simp: open_type_def Let_def less_Suc_eq)
  next
    case None
    have af: "refs_in_range (add_field st i s)" for i s
      using assms(1) unfolding refs_in_range_def
      by (cases "split_type_and_name s") (auto simp: add_field_def Let_def)
    show ?thesis using assms ns None af
      by (auto simp: scan_branch_def refs_in_range_def split: if_splits)
  qed
qed

lemma scan_lines_refs:
  "refs_in_range st \<Longrightarrow> scan_lines st ls = Inr st' \<Longrightarrow> refs_in_range st'"
proof (induction ls arbitrary: st)
  case Nil
  then show ?case by simp
next
  case (Cons l ls)
  from Cons.prems(2) obtain mid where m: "scan_line st l = Inr mid"
    and r: "scan_lines mid ls = Inr st'"
    by (auto split: sum.splits)
  from m obtain br d where "scan_branch st (strip (rstrip l)) (count_list (rstrip l) CHR ''{'') d
      = Inr br" and "mid = close_contexts d br"
    by (auto simp: scan_line_def Let_def split: sum.splits)
  then have "refs_in_range mid"
    using scan_branch_refs[OF Cons.prems(1)] close_contexts_refs by blast
  then show ?case using Cons.IH r by blast
qed

lemma initial_scan_refs: "refs_in_range initial_scan"
  by (simp add: refs_in_range_def initial_scan_def)

lemma scanner_refs: "scan_lines initial_scan ls = Inr st \<Longrightarrow> refs_in_range st"
  using initial_scan_refs by (rule scan_lines_refs)

section \<open>The scanner keeps field names non-empty\<close>

lemma close_contexts_type_infos [simp]:
  "type_infos (close_contexts d st) = type_infos st"
  by (simp add: close_contexts_def Let_def split: prod.splits)

lemma new_type_info_fields:
  "new_type_info st g = Inr info \<Longrightarrow> fields' info = [] \<and> static_fields info = []"
  unfolding new_type_info_def Let_def by (auto split: if_splits)

lemma open_type_result:
  assumes "open_type st g ob nd = Inr st'"
  shows "\<exists>info. type_infos st' = type_infos st @ [info] \<and>
           fields' info = [] \<and> static_fields info = [] \<and>
           alias_map st' =
             AliasMap_add (short_name info) (length (type_infos st))
               (AliasMap_add (full_name info) (length (type_infos st)) (alias_map st))"
proof (cases "new_type_info st g")
  case (Inl e)
  then show ?thesis using assms by (simp add: open_type_def)
next
  case (Inr info)
  then show ?thesis
    using assms new_type_info_fields[OF Inr]
    by (intro exI[of _ info]) (auto simp: open_type_def Let_def)
qed

lemma open_type_named:
  "fields_named (type_infos st) \<Longrightarrow> open_type st g ob nd = Inr st' \<Longrightarrow>
   fields_named (type_infos st')"
  by (drule open_type_result) (auto simp: fields_named_def)

lemma add_field_named:
  assumes "fields_named (type_infos st)"
  shows "fields_named (type_infos (add_field st i stripped))"
proof (cases "split_type_and_name stripped")
  case (Inl e)
  then show ?thesis using assms by (simp add: add_field_def)
next
  case (Inr p)
  obtain type_part name_part where p: "p = (type_part, name_part)" by (cases p)
  define field where "field = \<lparr>name = sanitize_identifier name_part, original_type = type_part,
      is_static = contains ('' '' @ stripped @ '' '') '' static '', c_type = None,
      referenced = None\<rparr>"
  define old where "old = type_infos st ! i"
  define new where "new = (if is_static field
      then old\<lparr>static_fields := static_fields old @ [field]\<rparr>
      else old\<lparr>fields' := fields' old @ [field]\<rparr>)"
  have eq: "type_infos (add_field st i stripped) = (type_infos st)[i := new]"
    using Inr p by (simp add: add_field_def Let_def field_def old_def new_def)
  have nm: "name field \<noteq> []" by (simp add: field_def sanitize_identifier_nonempty)
  show ?thesis
  proof (cases "i < length (type_infos st)")
    case False
    then show ?thesis using assms eq by (simp add: list_update_beyond)
  next
    case True
    then have "old \<in> set (type_infos st)" by (simp add: old_def)
    then have "\<forall>f \<in> set (fields' old @ static_fields old). name f \<noteq> []"
      using assms by (simp add: fields_named_def)
    then have "\<forall>f \<in> set (fields' new @ static_fields new). name f \<noteq> []"
      using nm by (auto simp: new_def)
    moreover have "set ((type_infos st)[i := new]) \<subseteq> insert new (set (type_infos st))"
      by (rule set_update_subset_insert)
    ultimately show ?thesis
      using assms unfolding eq fields_named_def by blast
  qed
qed

lemma scan_branch_named:
  assumes "fields_named (type_infos st)" "scan_branch st stripped ob nd = Inr st'"
  shows "fields_named (type_infos st')"
proof (cases "rx_match NAMESPACE_RE stripped")
  case (Some g)
  then show ?thesis using assms by (auto simp: scan_branch_def)
next
  case None
  note ns = None
  show ?thesis
  proof (cases "rx_match TYPE_RE stripped")
    case (Some g)
    then show ?thesis using assms ns open_type_named by (simp add: scan_branch_def)
  next
    case None
    then show ?thesis using assms ns add_field_named
      by (auto simp: scan_branch_def split: if_splits)
  qed
qed

lemma scan_line_named:
  assumes "fields_named (type_infos st)" "scan_line st l = Inr st'"
  shows "fields_named (type_infos st')"
  using assms scan_branch_named
  by (auto simp: scan_line_def Let_def split: sum.splits)

lemma scan_lines_named:
  "fields_named (type_infos st) \<Longrightarrow> scan_lines st ls = Inr st' \<Longrightarrow>
   fields_named (type_infos st')"
proof (induction ls arbitrary: st)
  case Nil
  then show ?case by simp
next
  case (Cons l ls)
  then show ?case by (auto split: sum.splits dest: scan_line_named)
qed

lemma parsed_eq: "parse_dump dump_text = Inr (tis, am) \<Longrightarrow> parsed dump_text = (tis, am)"
  by (simp add: parsed_def)

lemma parse_dump_named:
  assumes "parse_dump text = Inr (tis, am)"
  shows "fields_named tis"
proof -
  from assms obtain st where "scan_lines initial_scan (read_lines [] text) = Inr st"
    and "tis = type_infos st"
    by (auto simp: parse_dump_def split: sum.splits)
  moreover have "fields_named (type_infos initial_scan)"
    by (simp add: initial_scan_def fields_named_def)
  ultimately show ?thesis using scan_lines_named by blast
qed

text \<open>
  Claim C10. \<open>sanitize_identifier\<close> never returns the empty string: when nothing is left
  of the name (as for \<open>@\<close> and for the empty string) it returns \<open>field\<close>. Consequently every
  field that \<open>parse_dump\<close> appends to a type, instance or static, has a non-empty name.
\<close>

theorem field_names_nonempty:
  "sanitize_identifier s \<noteq> [] \<and>
   sanitize_identifier ''@'' = ''field'' \<and> sanitize_identifier '''' = ''field'' \<and>
   (parse_dump dump_text = Inr (tis, am) \<longrightarrow>
      (\<forall>info \<in> set tis. \<forall>field \<in> set (fields' info @ static_fields info). name field \<noteq> []))"
  using sanitize_identifier_nonempty sanitize_identifier_at sanitize_identifier_empty
    parse_dump_named[of dump_text tis am]
  unfolding fields_named_def by blast

lemma field_dump_eval:
  "case parse_dump field_dump of
     Inl e \<Rightarrow> False
   | Inr (tis, am) \<Rightarrow>
       concat (map (\<lambda>info. map name (fields' info @ static_fields info)) tis) = [''field'']"
  by code_simp

theorem field_names_nonempty_witness:
  "parse_dump field_dump = Inr (parsed field_dump) \<and>
   concat (map (\<lambda>info. map name (fields' info @ static_fields info)) (fst (parsed field_dump)))
     = [''field''] \<and>
   [] \<notin> set (concat (map (\<lambda>info. map name (fields' info @ static_fields info))
                          (fst (parsed field_dump))))"
proof -
  obtain tis am where p: "parse_dump field_dump = Inr (tis, am)"
    using field_dump_eval by (cases "parse_dump field_dump") auto
  have pe: "parsed field_dump = (tis, am)" using p by (rule parsed_eq)
  have names: "concat (map (\<lambda>info. map name (fields' info @ static_fields info)) tis)
               = [''field'']"
    using field_dump_eval p by simp
  have all: "\<forall>info \<in> set tis. \<forall>field \<in> set (fields' info @ static_fields info).
      name field \<noteq> []"
    using p field_names_nonempty[of "''@''" field_dump tis am] by (elim conjE) simp
  have "[] \<notin> set (concat (map (\<lambda>info. map name (fields' info @ static_fields info)) tis))"
  proof
    assume "[] \<in> set (concat (map (\<lambda>info. map name (fields' info @ static_fields info)) tis))"
    then obtain info where info: "info \<in> set tis"
      and "[] \<in> set (map name (fields' info @ static_fields info))"
      by auto
    then obtain field where "field \<in> set (fields' info @ static_fields info)"
      and "name field = []"
      unfolding set_map by (metis imageE)
    with all info show False by blast
  qed
  then show ?thesis using p names by (simp add: pe)
qed

section \<open>The recursion bound of emit\<close>

lemma emit_skip:
  "is_enum (tis ! i) \<or> struct_name (tis ! i) \<in> emitted st \<Longrightarrow>
   emit (Suc n) tis am i st = Some st"
  by (auto simp: Let_def)

lemma emit_unfold:
  assumes "\<not> is_enum (tis ! i)" "struct_name (tis ! i) \<notin> emitted st"
  shows "emit (Suc n) tis am i st =
           (case parent_step (emit n tis am) am (tis ! i) st of
              None \<Rightarrow> None
            | Some st1 \<Rightarrow>
                (case emit_fields n tis am (fields' (tis ! i) @ static_fields (tis ! i)) st1 of
                   None \<Rightarrow> None
                 | Some st2 \<Rightarrow> Some (finish tis am i st2)))"
  using assms unfolding parent_step_def finish_def by (simp add: Let_def)

lemma emit_Suc_step:
  assumes e: "\<And>i st st'. emit n tis am i st = Some st' \<Longrightarrow> emit (Suc n) tis am i st = Some st'"
    and f: "\<And>fs st st'. emit_fields n tis am fs st = Some st' \<Longrightarrow>
              emit_fields (Suc n) tis am fs st = Some st'"
    and a: "emit (Suc n) tis am i st = Some st'"
  shows "emit (Suc (Suc n)) tis am i st = Some st'"
proof (cases "is_enum (tis ! i) \<or> struct_name (tis ! i) \<in> emitted st")
  case True
  show ?thesis using a unfolding emit_skip[OF True] by simp
next
  case False
  then have ne: "\<not> is_enum (tis ! i)" and nm: "struct_name (tis ! i) \<notin> emitted st"
    by auto
  from a obtain st1 st2 where p1: "parent_step (emit n tis am) am (tis ! i) st = Some st1"
    and f1: "emit_fields n tis am (fields' (tis ! i) @ static_fields (tis ! i)) st1 = Some st2"
    and r: "st' = finish tis am i st2"
    unfolding emit_unfold[OF ne nm] by (auto split: option.splits)
  have "parent_step (emit (Suc n) tis am) am (tis ! i) st = Some st1"
    using p1 e unfolding parent_step_def by (auto split: option.splits if_splits)
  moreover have
    "emit_fields (Suc n) tis am (fields' (tis ! i) @ static_fields (tis ! i)) st1 = Some st2"
    using f1 by (rule f)
  ultimately show ?thesis unfolding emit_unfold[OF ne nm] using r by simp
qed

lemma emit_fields_Suc_step:
  assumes e: "\<And>i st st'. emit n tis am i st = Some st' \<Longrightarrow> emit (Suc n) tis am i st = Some st'"
  shows "emit_fields n tis am fs st = Some st' \<Longrightarrow> emit_fields (Suc n) tis am fs st = Some st'"
proof (induction fs arbitrary: st)
  case Nil
  then show ?case by simp
next
  case (Cons field rest)
  then show ?case
    by (auto split: option.splits dest: e)
qed

lemma emit_Suc:
  "(\<forall>i st st'. emit n tis am i st = Some st' \<longrightarrow> emit (Suc n) tis am i st = Some st') \<and>
   (\<forall>fs st st'. emit_fields n tis am fs st = Some st' \<longrightarrow>
      emit_fields (Suc n) tis am fs st = Some st')"
proof (induction n)
  case 0
  have e: "\<And>i st st'. emit 0 tis am i st = Some st' \<Longrightarrow> emit (Suc 0) tis am i st = Some st'"
    by simp
  show ?case using emit_fields_Suc_step[OF e] e by blast
next
  case (Suc n)
  have e: "\<And>i st st'. emit (Suc n) tis am i st = Some st' \<Longrightarrow>
             emit (Suc (Suc n)) tis am i st = Some st'"
    using Suc emit_Suc_step[of n tis am] by blast
  show ?case using emit_fields_Suc_step[OF e] e by blast
qed

lemma emit_mono:
  "emit n tis am i st = Some st' \<Longrightarrow> n \<le> m \<Longrightarrow> emit m tis am i st = Some st'"
proof (induction m)
  case 0
  then show ?case by simp
next
  case (Suc m)
  then show ?case using emit_Suc[of m tis am] by (cases "n = Suc m") auto
qed

lemma emit_all_mono:
  "emit_all n tis am is st = Some st' \<Longrightarrow> n \<le> m \<Longrightarrow> emit_all m tis am is st = Some st'"
proof (induction "is" arbitrary: st)
  case Nil
  then show ?case by simp
next
  case (Cons i rest)
  then show ?case by (auto split: option.splits dest: emit_mono)
qed

lemma generate_header_mono:
  assumes "generate_header tpl n tis am v = Some r" "n \<le> m"
  shows "generate_header tpl m tis am v = Some r"
proof -
  let ?tis = "resolve_field_types tis am"
  from assms(1) obtain st where
    st: "emit_all n ?tis am [0..<length ?tis] initial_emit = Some st"
    by (auto simp: generate_header_def Let_def split: option.splits)
  then have "emit_all m ?tis am [0..<length ?tis] initial_emit = Some st"
    using assms(2) by (rule emit_all_mono)
  with st assms(1) show ?thesis by (simp add: generate_header_def Let_def)
qed

lemma generate_header_unique:
  assumes "generate_header tpl n tis am v = Some r" "generate_header tpl n' tis am v = Some r'"
  shows "r = r'"
proof -
  have "generate_header tpl (max n n') tis am v = Some r"
    using assms(1) by (rule generate_header_mono) simp
  moreover have "generate_header tpl (max n n') tis am v = Some r'"
    using assms(2) by (rule generate_header_mono) simp
  ultimately show ?thesis by simp
qed

section \<open>Unsupported versions\<close>

lemma HEADER_VARIANTS_unsupported:
  "v \<notin> {''22'', ''24'', ''24.1'', ''24.2'', ''27'', ''29''} \<Longrightarrow> HEADER_VARIANTS tpl v = None"
  by (simp add: HEADER_VARIANTS_def)

lemma generate_header_unsupported:
  assumes "HEADER_VARIANTS tpl v = None"
  shows "generate_header tpl n tis am v =
           (case emit_all n (resolve_field_types tis am) am
                   [0..<length (resolve_field_types tis am)] initial_emit of
              None \<Rightarrow> None
            | Some st \<Rightarrow> Some (Inl (ValueError (''Unsupported header version: '' @ v))))"
  using assms by (simp add: generate_header_def Let_def split: option.splits)

lemma main_unsupported:
  assumes "HEADER_VARIANTS tpl v = None"
  shows "main tpl n \<lparr>dump_arg = d, output_arg = out, header_version_arg = v\<rparr> fs =
           Some (Inl (SystemExit ''2''), fs)"
  using assms by (auto simp: main_def parse_args_def)

text \<open>
  Claim C6. For every version identifier outside the supported set, \<open>generate_header\<close>
  returns no header text: whenever the emission returns, it raises the \<open>ValueError\<close>
  for the unsupported version. The run of \<open>main\<close> stops before that, when \<open>argparse\<close>
  refuses the version, and leaves every file as it was.
\<close>

theorem unsupported_version_aborts:
  assumes "v \<notin> {''22'', ''24'', ''24.1'', ''24.2'', ''27'', ''29''}"
  shows "(\<forall>header_text. generate_header tpl n tis am v \<noteq> Some (Inr header_text)) \<and>
         (emit_all n (resolve_field_types tis am) am
            [0..<length (resolve_field_types tis am)] initial_emit \<noteq> None \<longrightarrow>
          generate_header tpl n tis am v =
            Some (Inl (ValueError (''Unsupported header version: '' @ v)))) \<and>
         main tpl n \<lparr>dump_arg = d, output_arg = out, header_version_arg = v\<rparr> fs =
           Some (Inl (SystemExit ''2''), fs)"
proof -
  have u: "HEADER_VARIANTS tpl v = None"
    using assms by (rule HEADER_VARIANTS_unsupported)
  show ?thesis
    using generate_header_unsupported[OF u, of n tis am] main_unsupported[OF u, of n d out fs]
    by (auto split: option.splits)
qed

theorem unsupported_version_aborts_witness:
  "''30'' \<notin> {''22'', ''24'', ''24.1'', ''24.2'', ''27'', ''29''} \<and>
   emit_all 1 (resolve_field_types example_types example_alias) example_alias
     [0..<length (resolve_field_types example_types example_alias)] initial_emit \<noteq> None \<and>
   generate_header example_templates 1 example_types example_alias ''30'' =
     Some (Inl (ValueError ''Unsupported header version: 30'')) \<and>
   main example_templates 1
     \<lparr>dump_arg = ''dump.cs'', output_arg = ''il2cpp.h'', header_version_arg = ''30''\<rparr>
     [''il2cpp.h'' \<mapsto> ''old''] =
     Some (Inl (SystemExit ''2''), [''il2cpp.h'' \<mapsto> ''old''])"
proof -
  have v: "''30'' \<notin> {''22'', ''24'', ''24.1'', ''24.2'', ''27'', ''29''}" by simp
  have e: "emit_all 1 (resolve_field_types example_types example_alias) example_alias
     [0..<length (resolve_field_types example_types example_alias)] initial_emit \<noteq> None"
    by code_simp
  show ?thesis
    using unsupported_version_aborts[OF v, of example_templates 1 example_types example_alias
        "''dump.cs''" "''il2cpp.h''" "[''il2cpp.h'' \<mapsto> ''old'']"] v e
    by simp
qed

section \<open>Emission on a cycle\<close>

lemma cycle_emit_none:
  "''A'' \<notin> emitted st \<Longrightarrow> ''B'' \<notin> emitted st \<Longrightarrow>
   emit n cycle_resolved am 0 st = None \<and> emit n cycle_resolved am 1 st = None"
proof (induction n arbitrary: st)
  case 0
  show ?case by simp
next
  case (Suc n)
  have a: "emit n cycle_resolved am 0 st = None" and b: "emit n cycle_resolved am 1 st = None"
    using Suc by blast+
  have ne: "\<not> is_enum (cycle_resolved ! 0)" "\<not> is_enum (cycle_resolved ! 1)"
    by (simp_all add: cycle_resolved_def is_enum_def)
  have nm: "struct_name (cycle_resolved ! 0) \<notin> emitted st"
    "struct_name (cycle_resolved ! 1) \<notin> emitted st"
    using Suc.prems by (simp_all add: cycle_resolved_def)
  have "emit (Suc n) cycle_resolved am 0 st = None"
    unfolding emit_unfold[OF ne(1) nm(1)]
    using b by (simp add: parent_step_def cycle_resolved_def)
  moreover have "emit (Suc n) cycle_resolved am 1 st = None"
    unfolding emit_unfold[OF ne(2) nm(2)]
    using a by (simp add: parent_step_def cycle_resolved_def)
  ultimately show ?case by simp
qed

lemma cycle_parse:
  "case parse_dump cycle_dump of
     Inl e \<Rightarrow> False
   | Inr (tis, am) \<Rightarrow> tis \<noteq> [] \<and> resolve_field_types tis am = cycle_resolved"
  by code_simp

text \<open>
  Claim C7 fails on the code. For the dump \<open>cycle_dump\<close>, in which two structs each declare
  a field of the other's type, no recursion depth is enough for \<open>emit\<close> to return: \<open>emit\<close>
  marks a type as emitted only after it has emitted the dependencies, so each of the two
  calls the other for ever. Neither \<open>generate_header\<close> nor the run of \<open>main\<close> returns.
\<close>

theorem emit_diverges_on_cycle:
  "parse_dump cycle_dump = Inr (parsed cycle_dump) \<and>
   (\<forall>n. generate_header tpl n (fst (parsed cycle_dump)) (snd (parsed cycle_dump)) v = None) \<and>
   (\<forall>n. main tpl n \<lparr>dump_arg = d, output_arg = out, header_version_arg = ''29''\<rparr>
          (fs(d \<mapsto> cycle_dump)) = None)"
proof -
  obtain tis am where p: "parse_dump cycle_dump = Inr (tis, am)"
    and ne: "tis \<noteq> []" and r: "resolve_field_types tis am = cycle_resolved"
    using cycle_parse by (cases "parse_dump cycle_dump") auto
  have pe: "parsed cycle_dump = (tis, am)" using p by (rule parsed_eq)
  have g: "generate_header tpl n tis am w = None" for n w tpl
  proof -
    have "emit n cycle_resolved am 0 initial_emit = None"
      using cycle_emit_none[of initial_emit n am] by (simp add: initial_emit_def)
    moreover have "[0..<length cycle_resolved] = [0, 1]"
      by (simp add: cycle_resolved_def upt_rec)
    ultimately show ?thesis by (simp add: generate_header_def r)
  qed
  have "main tpl n \<lparr>dump_arg = d, output_arg = out, header_version_arg = ''29''\<rparr>
          (fs(d \<mapsto> cycle_dump)) = None" for n
    using p ne g by (simp add: main_def parse_args_def HEADER_VARIANTS_def dom_def)
  then show ?thesis using p g by (simp add: pe)
qed

section \<open>The recursion bound and the result\<close>

text \<open>
  The bound on the depth of the recursion is the only argument of the model that the code
  does not have. The lemmas above show that it does not matter for a result that is
  returned: once \<open>generate_header\<close> returns with some bound, it returns the same with every
  larger bound (\<open>generate_header_mono\<close>), and two bounds with which it returns give the same
  result (\<open>generate_header_unique\<close>). So \<open>None\<close> for every bound says that the code does not
  return, and any other result is the result of the code.
\<close>

section \<open>Ambiguous short names\<close>

lemma AliasMap_add_other:
  "normalise_type_name a \<noteq> k \<Longrightarrow> AliasMap_add a v m k = m k"
  by (simp add: AliasMap_add_def Let_def split: option.splits)

lemma AliasMap_add_same:
  "AliasMap_add a v m (normalise_type_name a) =
     (case m (normalise_type_name a) of
        None \<Rightarrow> Some (Some v)
      | Some None \<Rightarrow> Some None
      | Some (Some x) \<Rightarrow> if x = v then Some (Some v) else Some None)"
  by (simp add: AliasMap_add_def Let_def split: option.splits)

lemma AliasMap_add_cases:
  "AliasMap_add a v m k = m k \<or>
   (m k = None \<and> AliasMap_add a v m k = Some (Some v)) \<or>
   (\<exists>x. x \<noteq> v \<and> m k = Some (Some x) \<and> AliasMap_add a v m k = Some None)"
proof (cases "normalise_type_name a = k")
  case False
  then show ?thesis by (simp add: AliasMap_add_other)
next
  case True
  show ?thesis
    using AliasMap_add_same[of a v m] unfolding True
    by (auto split: option.splits if_splits)
qed

lemma AliasMap_add_ambiguous:
  "m k = Some None \<Longrightarrow> AliasMap_add a v m k = Some None"
  using AliasMap_add_cases[of a v m k] by auto

lemma AliasMap_add_bound:
  "m k \<in> {Some (Some i), Some None} \<Longrightarrow> AliasMap_add a v m k \<in> {Some (Some i), Some None}"
  using AliasMap_add_cases[of a v m k] by auto

lemma AliasMap_add_range:
  "AliasMap_add a v m k = Some (Some x) \<Longrightarrow> x = v \<or> m k = Some (Some x)"
  using AliasMap_add_cases[of a v m k] by auto

lemma AliasMap_add_demotes:
  assumes "m (normalise_type_name a) \<in> {Some (Some i), Some None}" "i \<noteq> v"
  shows "AliasMap_add a v m (normalise_type_name a) = Some None"
  using assms by (auto simp: AliasMap_add_same)

lemma alias_inv_register:
  assumes inv: "alias_inv tis m"
  shows "alias_inv (tis @ [info])
           (AliasMap_add (short_name info) (length tis)
              (AliasMap_add (full_name info) (length tis) m))"
proof -
  let ?n = "length tis"
  let ?m1 = "AliasMap_add (full_name info) ?n m"
  let ?m2 = "AliasMap_add (short_name info) ?n ?m1"
  let ?k = "\<lambda>t. normalise_type_name (short_name t)"
  from inv have a: "\<And>i. i < ?n \<Longrightarrow> m (?k (tis ! i)) \<in> {Some (Some i), Some None}"
    and b: "\<And>k v. m k = Some (Some v) \<Longrightarrow> v < ?n"
    and c: "\<And>i j. i < j \<Longrightarrow> j < ?n \<Longrightarrow> short_name (tis ! i) = short_name (tis ! j) \<Longrightarrow>
              m (?k (tis ! i)) = Some None"
    unfolding alias_inv_def by blast+
  have a1: "?m1 (?k (tis ! i)) \<in> {Some (Some i), Some None}" if "i < ?n" for i
    using a[OF that] by (rule AliasMap_add_bound)
  have a': "?m2 (?k ((tis @ [info]) ! i)) \<in> {Some (Some i), Some None}"
    if "i < length (tis @ [info])" for i
  proof (cases "i < ?n")
    case True
    have "?m2 (?k (tis ! i)) \<in> {Some (Some i), Some None}"
      using a1[OF True] by (rule AliasMap_add_bound)
    then show ?thesis using True by (simp only: nth_append if_True)
  next
    case False
    then have i: "i = ?n" using that by simp
    have "?m2 (?k info) \<in> {Some (Some ?n), Some None}"
      by (auto simp: AliasMap_add_same split: option.splits)
    then show ?thesis by (simp add: i)
  qed
  have b': "v < length (tis @ [info])" if "?m2 k = Some (Some v)" for k v
  proof -
    from AliasMap_add_range[OF that] have "v = ?n \<or> ?m1 k = Some (Some v)" .
    then have "v = ?n \<or> m k = Some (Some v)"
      using AliasMap_add_range[of "full_name info" ?n m k v] by blast
    then show ?thesis using b by (auto simp: less_Suc_eq)
  qed
  have c': "?m2 (?k ((tis @ [info]) ! i)) = Some None"
    if "i < j" "j < length (tis @ [info])"
       "short_name ((tis @ [info]) ! i) = short_name ((tis @ [info]) ! j)" for i j
  proof (cases "j < ?n")
    case True
    then have "m (?k (tis ! i)) = Some None"
      using c[of i j] that by (simp add: nth_append)
    then have "?m2 (?k (tis ! i)) = Some None"
      by (intro AliasMap_add_ambiguous)
    then show ?thesis using True that(1) by (simp add: nth_append)
  next
    case False
    then have j: "j = ?n" using that(2) by simp
    then have i: "i < ?n" using that(1) by simp
    have eq: "short_name (tis ! i) = short_name info"
      using that(3) i j by (simp add: nth_append)
    have "?m1 (?k info) \<in> {Some (Some i), Some None}"
      using a1[OF i] by (simp add: eq)
    then have "?m2 (?k info) = Some None"
      using i by (intro AliasMap_add_demotes) auto
    then show ?thesis using i eq by (simp add: nth_append)
  qed
  show ?thesis
    unfolding alias_inv_def using a' b' c' by blast
qed

lemma alias_inv_update:
  assumes "alias_inv tis m" "short_name info = short_name (tis ! i)"
  shows "alias_inv (tis[i := info]) m"
proof -
  have sn: "short_name (tis[i := info] ! j) = short_name (tis ! j)" for j
    using assms(2) by (cases "i < length tis") (auto simp: nth_list_update list_update_beyond)
  show ?thesis
    unfolding alias_inv_def length_list_update sn
    using assms(1)[unfolded alias_inv_def] .
qed

lemma close_contexts_alias_map [simp]:
  "alias_map (close_contexts d st) = alias_map st"
  by (simp add: close_contexts_def Let_def split: prod.splits)

lemma add_field_alias_inv:
  assumes "alias_inv (type_infos st) (alias_map st)"
  shows "alias_inv (type_infos (add_field st i stripped)) (alias_map (add_field st i stripped))"
proof (cases "split_type_and_name stripped")
  case (Inl e)
  then show ?thesis using assms by (simp add: add_field_def)
next
  case (Inr p)
  obtain type_part name_part where p: "p = (type_part, name_part)" by (cases p)
  show ?thesis
    using assms Inr p
    by (auto simp: add_field_def Let_def intro!: alias_inv_update)
qed

lemma scan_branch_alias_inv:
  assumes "alias_inv (type_infos st) (alias_map st)" "scan_branch st stripped ob nd = Inr st'"
  shows "alias_inv (type_infos st') (alias_map st')"
proof (cases "rx_match NAMESPACE_RE stripped")
  case (Some g)
  then show ?thesis using assms by (auto simp: scan_branch_def)
next
  case None
  note ns = None
  show ?thesis
  proof (cases "rx_match TYPE_RE stripped")
    case (Some g)
    then have "open_type st g ob nd = Inr st'"
      using assms(2) ns by (simp add: scan_branch_def)
    from open_type_result[OF this] obtain info where
      "type_infos st' = type_infos st @ [info]"
      "alias_map st' = AliasMap_add (short_name info) (length (type_infos st))
         (AliasMap_add (full_name info) (length (type_infos st)) (alias_map st))"
      by blast
    then show ?thesis using alias_inv_register[OF assms(1)] by simp
  next
    case None
    then show ?thesis using assms ns add_field_alias_inv
      by (auto simp: scan_branch_def split: if_splits)
  qed
qed

lemma scan_lines_alias_inv:
  "alias_inv (type_infos st) (alias_map st) \<Longrightarrow> scan_lines st ls = Inr st' \<Longrightarrow>
   alias_inv (type_infos st') (alias_map st')"
proof (induction ls arbitrary: st)
  case Nil
  then show ?case by simp
next
  case (Cons l ls)
  from Cons.prems(2) obtain mid where m: "scan_line st l = Inr mid"
    and r: "scan_lines mid ls = Inr st'"
    by (auto split: sum.splits)
  from m obtain br where "scan_branch st (strip (rstrip l)) (count_list (rstrip l) CHR ''{'')
      (brace_depth st + int (count_list (rstrip l) CHR ''{'') -
       int (count_list (rstrip l) CHR ''}'')) = Inr br"
    and "mid = close_contexts (brace_depth st + int (count_list (rstrip l) CHR ''{'') -
       int (count_list (rstrip l) CHR ''}'')) br"
    by (auto simp: scan_line_def Let_def split: sum.splits)
  then have "alias_inv (type_infos mid) (alias_map mid)"
    using scan_branch_alias_inv[OF Cons.prems(1)] by simp
  then show ?case using Cons.IH r by blast
qed

lemma parse_dump_alias_inv:
  assumes "parse_dump dump_text = Inr (tis, am)"
  shows "alias_inv tis am"
proof -
  from assms obtain st where "scan_lines initial_scan (read_lines [] dump_text) = Inr st"
    and "tis = type_infos st" "am = alias_map st"
    by (auto simp: parse_dump_def split: sum.splits)
  moreover have "alias_inv (type_infos initial_scan) (alias_map initial_scan)"
    by (simp add: initial_scan_def alias_inv_def)
  ultimately show ?thesis using scan_lines_alias_inv by blast
qed

lemma parse_dump_resolve_range:
  assumes "parse_dump dump_text = Inr (tis, am)" "AliasMap_resolve am nm = Some r"
  shows "r < length tis"
proof -
  from assms(2) obtain k where "am k = Some (Some r)"
    by (auto simp: AliasMap_resolve_def Let_def dict_get_def split: option.splits)
  then show ?thesis
    using parse_dump_alias_inv[OF assms(1)] unfolding alias_inv_def by blast
qed

lemma resolve_ambiguous:
  assumes "am (normalise_type_name nm) = Some None"
    and "CHR ''.'' \<notin> set (normalise_type_name nm)"
  shows "AliasMap_resolve am nm = None"
proof -
  have "takeWhile (\<lambda>c. c \<noteq> CHR ''.'') (rev (normalise_type_name nm)) = rev (normalise_type_name nm)"
    using assms(2) by (intro takeWhile_eq_all_conv[THEN iffD2]) auto
  then have "last_segment (normalise_type_name nm) = normalise_type_name nm"
    unfolding last_segment_def by (simp only: rev_rev_ident)
  then show ?thesis using assms(1) by (simp add: AliasMap_resolve_def Let_def dict_get_def)
qed

lemma primitive_clash_eval:
  "case parse_dump primitive_clash_dump of
     Inl e \<Rightarrow> False
   | Inr (tis, am) \<Rightarrow>
       map full_name tis = [''A.Int32'', ''B.Int32''] \<and>
       map short_name tis = [''Int32'', ''Int32''] \<and>
       am ''Int32'' = Some None \<and>
       map original_type (fields' (tis ! 1)) = [''Int32''] \<and>
       convert_type tis ''Int32'' am = (''int32_t'', None)"
  by code_simp

text \<open>
  Claim C5, as stated, fails: the primitive table is looked up before the alias map. Two
  structs of \<open>primitive_clash_dump\<close> share the short name \<open>Int32\<close>; the alias map holds the
  ambiguous mark for it, but a field declared \<open>Int32\<close> resolves to the primitive
  \<open>int32_t\<close>, not to the opaque-object pointer.
\<close>

theorem ambiguous_primitive_name:
  "parse_dump primitive_clash_dump = Inr (parsed primitive_clash_dump) \<and>
   map full_name (fst (parsed primitive_clash_dump)) = [''A.Int32'', ''B.Int32''] \<and>
   map short_name (fst (parsed primitive_clash_dump)) = [''Int32'', ''Int32''] \<and>
   snd (parsed primitive_clash_dump) ''Int32'' = Some None \<and>
   map original_type (fields' (fst (parsed primitive_clash_dump) ! 1)) = [''Int32''] \<and>
   convert_type (fst (parsed primitive_clash_dump)) ''Int32'' (snd (parsed primitive_clash_dump))
     = (''int32_t'', None)"
proof -
  obtain tis am where p: "parse_dump primitive_clash_dump = Inr (tis, am)"
    using primitive_clash_eval by (cases "parse_dump primitive_clash_dump") auto
  have pe: "parsed primitive_clash_dump = (tis, am)" using p by (rule parsed_eq)
  show ?thesis using primitive_clash_eval p by (simp add: pe)
qed

text \<open>
  Claim C5, amended. When two distinct discovered types share a short name, the alias map
  of \<open>parse_dump\<close> binds that name to the ambiguous mark. A field whose declared type is
  that short name resolves to the opaque-object pointer, with no dependency, provided the
  name is not a key of the primitive table, is its own base name (it has no pointer,
  array or nullable marker and no blank around it) and has no dot after normalisation.
\<close>

theorem ambiguous_short_name:
  assumes "parse_dump dump_text = Inr (tis, am)"
    and "i < j" and "j < length tis"
    and "short_name (tis ! i) = short_name (tis ! j)"
  shows "am (normalise_type_name (short_name (tis ! i))) = Some None \<and>
         (PRIMITIVE_MAP (short_name (tis ! i)) = None \<and>
          base_name (short_name (tis ! i)) = (short_name (tis ! i), [], 0) \<and>
          CHR ''.'' \<notin> set (normalise_type_name (short_name (tis ! i))) \<longrightarrow>
          convert_type tis (short_name (tis ! i)) am = (''Il2CppObject*'', None))"
proof -
  have amb: "am (normalise_type_name (short_name (tis ! i))) = Some None"
    using parse_dump_alias_inv[OF assms(1)] assms(2-4) unfolding alias_inv_def by blast
  have "convert_type tis (short_name (tis ! i)) am = (''Il2CppObject*'', None)"
    if pm: "PRIMITIVE_MAP (short_name (tis ! i)) = None"
      and bn: "base_name (short_name (tis ! i)) = (short_name (tis ! i), [], 0)"
      and dot: "CHR ''.'' \<notin> set (normalise_type_name (short_name (tis ! i)))"
  proof -
    have "AliasMap_resolve am (short_name (tis ! i)) = None"
      using amb dot by (rule resolve_ambiguous)
    from convert_type_fallback[OF bn pm this, of tis] show ?thesis by simp
  qed
  with amb show ?thesis by blast
qed

theorem ambiguous_short_name_witness:
  "parse_dump clash_dump = Inr (parsed clash_dump) \<and>
   (0::nat) < 1 \<and> 1 < length (fst (parsed clash_dump)) \<and>
   short_name (fst (parsed clash_dump) ! 0) = ''Foo'' \<and>
   short_name (fst (parsed clash_dump) ! 1) = ''Foo'' \<and>
   snd (parsed clash_dump) ''Foo'' = Some None \<and>
   convert_type (fst (parsed clash_dump)) ''Foo'' (snd (parsed clash_dump))
     = (''Il2CppObject*'', None)"
proof -
  have ev: "case parse_dump clash_dump of
       Inl e \<Rightarrow> False
     | Inr (tis, am) \<Rightarrow> map short_name tis = [''Foo'', ''Foo'']"
    by code_simp
  then obtain tis am where p: "parse_dump clash_dump = Inr (tis, am)"
    by (cases "parse_dump clash_dump") auto
  have pe: "parsed clash_dump = (tis, am)" using p by (rule parsed_eq)
  from ev p have names: "map short_name tis = [''Foo'', ''Foo'']" by simp
  then have len: "length tis = 2" by (metis length_map length_Cons list.size(3) numeral_2_eq_2)
  have s0: "short_name (tis ! 0) = ''Foo''" and s1: "short_name (tis ! 1) = ''Foo''"
    using names len by (metis nth_map nth_Cons_0 zero_less_numeral,
                        metis nth_map nth_Cons_0 nth_Cons_Suc One_nat_def one_less_numeral_iff
                              semiring_norm(76))
  have n: "normalise_type_name ''Foo'' = ''Foo''" by code_simp
  have pm: "PRIMITIVE_MAP ''Foo'' = None" by code_simp
  have bn: "base_name ''Foo'' = (''Foo'', [], 0)" by code_simp
  have "am ''Foo'' = Some None \<and> convert_type tis ''Foo'' am = (''Il2CppObject*'', None)"
    using ambiguous_short_name[OF p, of 0 1] len s0 s1 n pm bn by simp
  then show ?thesis using p len s0 s1 by (simp add: pe)
qed

section \<open>The order of emission\<close>

lemma emit_inv_initial: "emit_inv tis am initial_emit"
  by (simp add: emit_inv_def initial_emit_def)

lemma emit_inv_emitted:
  "emit_inv tis am st \<Longrightarrow> emitted st = (\<lambda>i. struct_name (tis ! i)) ` set (order st)"
  by (simp add: emit_inv_def)

lemma satisfied_mono:
  assumes "emit_inv tis am st" "emit_inv tis am st'" "order st' = order st @ ext"
    and "satisfied tis st a"
  shows "satisfied tis st' a"
proof -
  have "emitted st \<subseteq> emitted st'"
    unfolding emit_inv_emitted[OF assms(1)] emit_inv_emitted[OF assms(2)] assms(3) by auto
  then show ?thesis using assms(4) unfolding satisfied_def by blast
qed

lemma emit_inv_finish:
  assumes inv: "emit_inv tis am st" and ne: "\<not> is_enum (tis ! i)"
    and deps: "\<And>a. depends tis am i a \<Longrightarrow> satisfied tis st a"
  shows "emit_inv tis am (finish tis am i st)"
proof -
  let ?nm = "\<lambda>i. struct_name (tis ! i)"
  let ?st = "finish tis am i st"
  have ord: "order ?st = order st @ [i]" by (simp add: finish_def)
  have j1: "emitted ?st = ?nm ` set (order ?st)"
    using emit_inv_emitted[OF inv] by (simp add: finish_def)
  have j2: "chunks ?st = map (\<lambda>i. render_type tis am (tis ! i)) (order ?st)"
    using inv by (simp add: finish_def emit_inv_def)
  have j4: "\<forall>k \<in> set (order ?st). \<not> is_enum (tis ! k)"
    using inv ne by (simp add: finish_def emit_inv_def)
  have j3: "is_enum (tis ! a) \<or> ?nm a \<in> ?nm ` set (take q (order ?st))"
    if q: "q < length (order ?st)" and d: "depends tis am (order ?st ! q) a" for q a
  proof (cases "q < length (order st)")
    case True
    then have "depends tis am (order st ! q) a" using d by (simp add: ord nth_append)
    then have "is_enum (tis ! a) \<or> ?nm a \<in> ?nm ` set (take q (order st))"
      using inv True unfolding emit_inv_def by blast
    then show ?thesis using True by (simp add: ord)
  next
    case False
    then have qq: "q = length (order st)" using q by (simp add: ord)
    then have "depends tis am i a" using d by (simp add: ord)
    then have "satisfied tis st a" by (rule deps)
    then have "is_enum (tis ! a) \<or> ?nm a \<in> ?nm ` set (order st)"
      unfolding satisfied_def emit_inv_emitted[OF inv] .
    then show ?thesis by (simp add: ord qq)
  qed
  show ?thesis
    unfolding emit_inv_def using j1 j2 j3 j4 by blast
qed

lemma emit_fields_inv_step:
  assumes e: "\<And>i st st'. emit_inv tis am st \<Longrightarrow> emit n tis am i st = Some st' \<Longrightarrow>
      emit_inv tis am st' \<and> (\<exists>ext. order st' = order st @ ext) \<and> satisfied tis st' i"
  shows "emit_inv tis am st \<Longrightarrow> emit_fields n tis am fs st = Some st' \<Longrightarrow>
      emit_inv tis am st' \<and> (\<exists>ext. order st' = order st @ ext) \<and>
      (\<forall>r. Some r \<in> set (map referenced fs) \<longrightarrow> satisfied tis st' r)"
proof (induction fs arbitrary: st)
  case Nil
  then show ?case by simp
next
  case (Cons field rest)
  show ?case
  proof (cases "referenced field")
    case None
    then have "emit_fields n tis am rest st = Some st'" using Cons.prems(2) by simp
    from Cons.IH[OF Cons.prems(1) this] show ?thesis using None by auto
  next
    case (Some r)
    then obtain st1 where s1: "emit n tis am r st = Some st1"
      and s2: "emit_fields n tis am rest st1 = Some st'"
      using Cons.prems(2) by (auto split: option.splits)
    from e[OF Cons.prems(1) s1] obtain ext1 where i1: "emit_inv tis am st1"
      and o1: "order st1 = order st @ ext1" and sat1: "satisfied tis st1 r"
      by blast
    from Cons.IH[OF i1 s2] obtain ext2 where i2: "emit_inv tis am st'"
      and o2: "order st' = order st1 @ ext2"
      and sat2: "\<forall>r. Some r \<in> set (map referenced rest) \<longrightarrow> satisfied tis st' r"
      by blast
    have "satisfied tis st' r" using i1 i2 o2 sat1 by (rule satisfied_mono)
    moreover have "order st' = order st @ (ext1 @ ext2)" using o1 o2 by simp
    ultimately show ?thesis using i2 sat2 Some by auto
  qed
qed

lemma emit_inv_step:
  assumes e: "\<And>i st st'. emit_inv tis am st \<Longrightarrow> emit n tis am i st = Some st' \<Longrightarrow>
      emit_inv tis am st' \<and> (\<exists>ext. order st' = order st @ ext) \<and> satisfied tis st' i"
    and f: "\<And>fs st st'. emit_inv tis am st \<Longrightarrow> emit_fields n tis am fs st = Some st' \<Longrightarrow>
      emit_inv tis am st' \<and> (\<exists>ext. order st' = order st @ ext) \<and>
      (\<forall>r. Some r \<in> set (map referenced fs) \<longrightarrow> satisfied tis st' r)"
    and inv: "emit_inv tis am st"
    and a: "emit (Suc n) tis am i st = Some st'"
  shows "emit_inv tis am st' \<and> (\<exists>ext. order st' = order st @ ext) \<and> satisfied tis st' i"
proof (cases "is_enum (tis ! i) \<or> struct_name (tis ! i) \<in> emitted st")
  case True
  have "st' = st" using a unfolding emit_skip[OF True] by simp
  then show ?thesis using inv True by (simp add: satisfied_def)
next
  case False
  then have ne: "\<not> is_enum (tis ! i)" and nm: "struct_name (tis ! i) \<notin> emitted st"
    by auto
  let ?fs = "fields' (tis ! i) @ static_fields (tis ! i)"
  from a obtain st1 st2 where p1: "parent_step (emit n tis am) am (tis ! i) st = Some st1"
    and f1: "emit_fields n tis am ?fs st1 = Some st2"
    and r: "st' = finish tis am i st2"
    unfolding emit_unfold[OF ne nm] by (auto split: option.splits)
  have par: "emit_inv tis am st1 \<and> (\<exists>ext. order st1 = order st @ ext) \<and>
      (\<forall>a. (case parent (tis ! i) of None \<Rightarrow> False
             | Some p \<Rightarrow> p \<noteq> [] \<and> AliasMap_resolve am p = Some a) \<longrightarrow> satisfied tis st1 a)"
  proof (cases "parent (tis ! i)")
    case None
    then show ?thesis using p1 inv by (simp add: parent_step_def)
  next
    case (Some p)
    show ?thesis
    proof (cases "p = [] \<or> AliasMap_resolve am p = None")
      case True
      then have "st1 = st" using p1 Some by (auto simp: parent_step_def split: if_splits)
      then show ?thesis using inv Some True by auto
    next
      case False
      then obtain pi where pi: "AliasMap_resolve am p = Some pi" and pne: "p \<noteq> []" by auto
      then have "emit n tis am pi st = Some st1"
        using p1 Some by (simp add: parent_step_def)
      from e[OF inv this] show ?thesis using Some pi pne by auto
    qed
  qed
  then obtain ext1 where i1: "emit_inv tis am st1" and o1: "order st1 = order st @ ext1"
    and ps: "\<And>a. (case parent (tis ! i) of None \<Rightarrow> False
             | Some p \<Rightarrow> p \<noteq> [] \<and> AliasMap_resolve am p = Some a) \<Longrightarrow> satisfied tis st1 a"
    by blast
  from f[OF i1 f1] obtain ext2 where i2: "emit_inv tis am st2"
    and o2: "order st2 = order st1 @ ext2"
    and fsat: "\<And>r. Some r \<in> set (map referenced ?fs) \<Longrightarrow> satisfied tis st2 r"
    by blast
  have deps: "satisfied tis st2 a" if "depends tis am i a" for a
    using that unfolding depends_def
  proof
    assume "case parent (tis ! i) of None \<Rightarrow> False
            | Some p \<Rightarrow> p \<noteq> [] \<and> AliasMap_resolve am p = Some a"
    then have "satisfied tis st1 a" by (rule ps)
    with i1 i2 o2 show ?thesis by (rule satisfied_mono)
  next
    assume "Some a \<in> set (map referenced ?fs)"
    then show ?thesis by (rule fsat)
  qed
  have "emit_inv tis am st'" unfolding r using i2 ne deps by (rule emit_inv_finish)
  moreover have "order st' = order st @ (ext1 @ ext2 @ [i])"
    using o1 o2 by (simp add: r finish_def)
  moreover have "satisfied tis st' i" by (simp add: r finish_def satisfied_def)
  ultimately show ?thesis by blast
qed

lemma emit_inv_all:
  "(\<forall>i st st'. emit_inv tis am st \<longrightarrow> emit n tis am i st = Some st' \<longrightarrow>
      emit_inv tis am st' \<and> (\<exists>ext. order st' = order st @ ext) \<and> satisfied tis st' i) \<and>
   (\<forall>fs st st'. emit_inv tis am st \<longrightarrow> emit_fields n tis am fs st = Some st' \<longrightarrow>
      emit_inv tis am st' \<and> (\<exists>ext. order st' = order st @ ext) \<and>
      (\<forall>r. Some r \<in> set (map referenced fs) \<longrightarrow> satisfied tis st' r))"
proof (induction n)
  case 0
  have e: "\<And>i st st'. emit_inv tis am st \<Longrightarrow> emit 0 tis am i st = Some st' \<Longrightarrow>
      emit_inv tis am st' \<and> (\<exists>ext. order st' = order st @ ext) \<and> satisfied tis st' i"
    by simp
  show ?case using emit_fields_inv_step[OF e] e by blast
next
  case (Suc n)
  have e: "\<And>i st st'. emit_inv tis am st \<Longrightarrow> emit (Suc n) tis am i st = Some st' \<Longrightarrow>
      emit_inv tis am st' \<and> (\<exists>ext. order st' = order st @ ext) \<and> satisfied tis st' i"
    using Suc emit_inv_step[of tis am n] by blast
  show ?case using emit_fields_inv_step[OF e] e by blast
qed

lemma emit_all_inv:
  "emit_inv tis am st \<Longrightarrow> emit_all n tis am is st = Some st' \<Longrightarrow> emit_inv tis am st'"
proof (induction "is" arbitrary: st)
  case Nil
  then show ?case by simp
next
  case (Cons i rest)
  from Cons.prems(2) obtain st1 where s1: "emit n tis am i st = Some st1"
    and s2: "emit_all n tis am rest st1 = Some st'"
    by (auto split: option.splits)
  have "emit_inv tis am st1" using emit_inv_all[of tis am n] Cons.prems(1) s1 by blast
  then show ?case using s2 by (rule Cons.IH)
qed

lemma split_at_two:
  assumes "p < q" "q < length xs"
  shows "\<exists>us vs ws. xs = us @ [xs ! p] @ vs @ [xs ! q] @ ws"
proof -
  define t where "t = take q xs"
  define ws where "ws = drop (Suc q) xs"
  define us where "us = take p t"
  define vs where "vs = drop (Suc p) t"
  have 1: "t @ xs ! q # ws = xs"
    unfolding t_def ws_def using assms(2) by (rule id_take_nth_drop[symmetric])
  have "p < length t" using assms by (simp add: t_def)
  then have "us @ t ! p # vs = t"
    unfolding us_def vs_def by (rule id_take_nth_drop[symmetric])
  moreover have "t ! p = xs ! p" using assms(1) by (simp add: t_def)
  ultimately have 2: "us @ xs ! p # vs = t" by simp
  have "us @ [xs ! p] @ vs @ [xs ! q] @ ws = (us @ xs ! p # vs) @ xs ! q # ws" by simp
  also have "\<dots> = t @ xs ! q # ws" by (simp only: 2)
  also have "\<dots> = xs" by (rule 1)
  finally show ?thesis by metis
qed

lemma generate_header_text:
  assumes "generate_header tpl n tis0 am v = Some (Inr header_text)"
    and "emit_all n (resolve_field_types tis0 am) am
           [0..<length (resolve_field_types tis0 am)] initial_emit = Some st"
  shows "\<exists>variant. header_text = GENERIC_HEADER tpl @ variant @
           concat (map (\<lambda>i. render_type (resolve_field_types tis0 am) am
                               (resolve_field_types tis0 am ! i)) (order st))"
proof -
  let ?tis = "resolve_field_types tis0 am"
  have "emit_inv ?tis am st"
    using emit_inv_initial assms(2) by (rule emit_all_inv)
  then have ch: "chunks st = map (\<lambda>i. render_type ?tis am (?tis ! i)) (order st)"
    by (simp add: emit_inv_def)
  from assms obtain variant where "header_text = concat ([GENERIC_HEADER tpl, variant] @ chunks st)"
    by (auto simp: generate_header_def Let_def split: option.splits if_splits)
  then show ?thesis unfolding ch by auto
qed

lemma emitted_before:
  assumes inv: "emit_inv tis am st"
    and q: "q < length (order st)"
    and d: "depends tis am (order st ! q) a"
    and ne: "\<not> is_enum (tis ! a)"
    and uniq: "\<forall>j \<in> set (order st). struct_name (tis ! j) = struct_name (tis ! a) \<longrightarrow> j = a"
  shows "\<exists>p < q. order st ! p = a"
proof -
  from inv q d ne
  have "struct_name (tis ! a) \<in> (\<lambda>i. struct_name (tis ! i)) ` set (take q (order st))"
    unfolding emit_inv_def by blast
  then obtain j where j: "j \<in> set (take q (order st))"
    and nm: "struct_name (tis ! j) = struct_name (tis ! a)"
    by auto
  from j obtain p where p: "p < length (take q (order st))" and jp: "take q (order st) ! p = j"
    by (auto simp: in_set_conv_nth)
  then have pq: "p < q" and op: "order st ! p = j" by simp_all
  have "j \<in> set (order st)" using j by (rule in_set_takeD)
  then have "j = a" using uniq nm by blast
  then show ?thesis using pq op by blast
qed

lemma shadow_eval:
  "case parse_dump shadow_dump of
     Inl e \<Rightarrow> False
   | Inr (tis0, am) \<Rightarrow>
       (let tis = resolve_field_types tis0 am
        in map struct_name tis = [''N_A'', ''N_A'', ''B''] \<and>
           depends tis am 2 0 \<and> \<not> is_enum (tis ! 0) \<and>
           take 17 (render_type tis am (tis ! 1)) = ''struct N_A_Fields'' \<and>
           take 15 (render_type tis am (tis ! 2)) = ''struct B_Fields'' \<and>
           take 17 (render_type tis am (tis ! 0)) = ''struct N_A_Fields'' \<and>
           (case emit_all 3 tis am [0..<length tis] initial_emit of
              None \<Rightarrow> False
            | Some st \<Rightarrow>
                order st = [1, 2, 0] \<and>
                generate_header example_templates 3 tis0 am ''29'' =
                  Some (Inr (concat [GENERIC_HEADER example_templates,
                                     variant_text example_templates ''29'',
                                     render_type tis am (tis ! 1), render_type tis am (tis ! 2),
                                     render_type tis am (tis ! 0)]))))"
  by code_simp

text \<open>
  Claim C3 fails on the code. In \<open>shadow_dump\<close> the struct \<open>B\<close> has a field of the struct
  \<open>N.A\<close>, and both are emitted, but the group of \<open>N.A\<close> (position 0 of the arena) comes
  after the group of \<open>B\<close> (position 2). \<open>N.A\<close> and \<open>N_A\<close> are given the same structure
  name; \<open>emit\<close> adds the name of \<open>N.A\<close> to \<open>emitted\<close> only after it has emitted the
  dependencies of \<open>N.A\<close>, so the struct \<open>N_A\<close> puts the name there first, and when \<open>emit\<close>
  reaches the field of \<open>B\<close> it takes \<open>N.A\<close> for emitted. The header then holds the group
  of \<open>N_A\<close>, the group of \<open>B\<close> and the group of \<open>N.A\<close>, in this order.
\<close>

theorem dependency_emitted_later:
  "parse_dump shadow_dump = Inr (parsed shadow_dump) \<and>
   map struct_name (resolved shadow_dump) = [''N_A'', ''N_A'', ''B''] \<and>
   depends (resolved shadow_dump) (snd (parsed shadow_dump)) 2 0 \<and>
   \<not> is_enum (resolved shadow_dump ! 0) \<and>
   map_option order (emission 3 shadow_dump) = Some [1, 2, 0] \<and>
   generate_header example_templates 3 (fst (parsed shadow_dump)) (snd (parsed shadow_dump)) ''29''
     = Some (Inr (concat [GENERIC_HEADER example_templates,
                          variant_text example_templates ''29'',
                          group_of shadow_dump 1, group_of shadow_dump 2,
                          group_of shadow_dump 0])) \<and>
   take 17 (group_of shadow_dump 1) = ''struct N_A_Fields'' \<and>
   take 15 (group_of shadow_dump 2) = ''struct B_Fields'' \<and>
   take 17 (group_of shadow_dump 0) = ''struct N_A_Fields''"
proof -
  obtain tis am where p: "parse_dump shadow_dump = Inr (tis, am)"
    using shadow_eval by (cases "parse_dump shadow_dump") auto
  have pe: "parsed shadow_dump = (tis, am)" using p by (rule parsed_eq)
  show ?thesis
    using shadow_eval p
    by (auto simp: pe resolved_def emission_def group_of_def Let_def split: option.splits)
qed

text \<open>
  The order is the intended one wherever the late insertion into \<open>emitted\<close> cannot show:
  if no other emitted type has the structure name of the dependency, the dependency is
  emitted before the type that needs it. The dump \<open>scenario_dump\<close> is an example.
\<close>

lemma order_with_unique_names:
  assumes gh: "generate_header tpl n tis0 am v = Some (Inr header_text)"
    and tis: "tis = resolve_field_types tis0 am"
    and ea: "emit_all n tis am [0..<length tis] initial_emit = Some st"
    and b: "b \<in> set (order st)"
    and d: "depends tis am b a"
    and ne: "\<not> is_enum (tis ! a)"
    and uniq: "\<forall>j \<in> set (order st). struct_name (tis ! j) = struct_name (tis ! a) \<longrightarrow> j = a"
  shows "(\<exists>p q. p < q \<and> q < length (order st) \<and> order st ! p = a \<and> order st ! q = b) \<and>
         (\<exists>pre mid post. header_text =
            pre @ render_type tis am (tis ! a) @ mid @ render_type tis am (tis ! b) @ post)"
proof -
  let ?r = "\<lambda>i. render_type tis am (tis ! i)"
  have inv: "emit_inv tis am st"
    using emit_inv_initial ea by (rule emit_all_inv)
  from b obtain q where q: "q < length (order st)" and oq: "order st ! q = b"
    by (auto simp: in_set_conv_nth)
  from emitted_before[OF inv q _ ne uniq] d oq
  obtain p where pq: "p < q" and op: "order st ! p = a" by auto
  from split_at_two[OF pq q] obtain us vs ws where
    sp: "order st = us @ [a] @ vs @ [b] @ ws" unfolding op oq by blast
  from generate_header_text[OF gh ea[unfolded tis]] obtain variant where
    "header_text = GENERIC_HEADER tpl @ variant @ concat (map ?r (order st))"
    unfolding tis by blast
  then have "header_text =
      (GENERIC_HEADER tpl @ variant @ concat (map ?r us)) @ ?r a @ concat (map ?r vs) @ ?r b @
      concat (map ?r ws)"
    unfolding sp by simp
  then show ?thesis using pq q op oq by blast
qed

lemma order_with_unique_names_example:
  "parse_dump scenario_dump = Inr (parsed scenario_dump) \<and>
   map_option order (emission 2 scenario_dump) = Some [1, 0] \<and>
   depends (resolved scenario_dump) (snd (parsed scenario_dump)) 0 1 \<and>
   \<not> is_enum (resolved scenario_dump ! 1) \<and>
   struct_name (resolved scenario_dump ! 0) \<noteq> struct_name (resolved scenario_dump ! 1) \<and>
   (\<exists>pre mid post.
      generate_header example_templates 2 (fst (parsed scenario_dump))
        (snd (parsed scenario_dump)) ''29''
      = Some (Inr (pre @ group_of scenario_dump 1 @ mid @ group_of scenario_dump 0 @ post)))"
proof -
  have ev: "case parse_dump scenario_dump of
       Inl e \<Rightarrow> False
     | Inr (tis0, am) \<Rightarrow>
         (let tis = resolve_field_types tis0 am
          in (case emit_all 2 tis am [0..<length tis] initial_emit of
                None \<Rightarrow> False
              | Some st \<Rightarrow> order st = [1, 0]) \<and>
             depends tis am 0 1 \<and> \<not> is_enum (tis ! 1) \<and>
             struct_name (tis ! 0) \<noteq> struct_name (tis ! 1) \<and>
             (case generate_header example_templates 2 tis0 am ''29'' of
                Some (Inr t) \<Rightarrow> True
              | _ \<Rightarrow> False))"
    by code_simp
  then obtain tis0 am where p: "parse_dump scenario_dump = Inr (tis0, am)"
    by (cases "parse_dump scenario_dump") auto
  have pe: "parsed scenario_dump = (tis0, am)" using p by (rule parsed_eq)
  define tis where "tis = resolve_field_types tis0 am"
  from ev p obtain st header_text where
    ea: "emit_all 2 tis am [0..<length tis] initial_emit = Some st"
    and ord: "order st = [1, 0]"
    and d: "depends tis am 0 1" and ne: "\<not> is_enum (tis ! 1)"
    and diff: "struct_name (tis ! 0) \<noteq> struct_name (tis ! 1)"
    and gh: "generate_header example_templates 2 tis0 am ''29'' = Some (Inr header_text)"
    unfolding tis_def by (auto simp: Let_def split: option.splits sum.splits)
  have b: "0 \<in> set (order st)" by (simp add: ord)
  have uniq: "\<forall>j \<in> set (order st). struct_name (tis ! j) = struct_name (tis ! 1) \<longrightarrow> j = 1"
    using diff by (simp add: ord)
  from order_with_unique_names[OF gh tis_def ea b d ne uniq]
  obtain pre mid post where
    "header_text = pre @ render_type tis am (tis ! 1) @ mid @ render_type tis am (tis ! 0) @ post"
    by blast
  then have "generate_header example_templates 2 tis0 am ''29'' =
      Some (Inr (pre @ render_type tis am (tis ! 1) @ mid @ render_type tis am (tis ! 0) @ post))"
    using gh by simp
  then have "\<exists>pre mid post. generate_header example_templates 2 tis0 am ''29'' =
      Some (Inr (pre @ render_type tis am (tis ! 1) @ mid @ render_type tis am (tis ! 0) @ post))"
    by blast
  then show ?thesis
    using p ea ord d ne diff
    by (simp add: pe resolved_def emission_def group_of_def tis_def)
qed

section \<open>Emitting a structure name twice\<close>

lemma collision_eval:
  "case parse_dump collision_dump of
     Inl e \<Rightarrow> False
   | Inr (tis0, am) \<Rightarrow>
       (let tis = resolve_field_types tis0 am
        in map full_name tis = [''A_B'', ''A.B''] \<and>
           map struct_name tis = [''A_B'', ''A_B''] \<and>
           (case emit_all 2 tis am [0..<length tis] initial_emit of
              None \<Rightarrow> False
            | Some st \<Rightarrow>
                order st = [1, 0] \<and>
                map (take 18) (chunks st) =
                  [''struct A_B_Fields'' @ NL, ''struct A_B_Fields'' @ NL] \<and>
                generate_header example_templates 2 tis0 am ''29'' =
                  Some (Inr (concat ([GENERIC_HEADER example_templates,
                                      variant_text example_templates ''29''] @ chunks st)))))"
  by code_simp

text \<open>
  Claim C4 fails on the code. In \<open>collision_dump\<close> the struct \<open>A_B\<close> has a field of the
  struct \<open>A.B\<close>, and both are given the structure name \<open>A_B\<close>. \<open>emit\<close> tests the name of
  \<open>A_B\<close> against \<open>emitted\<close> before it emits the dependency and adds the name after it, so
  both types are rendered: the header holds two structure groups whose subject is \<open>A_B\<close>.
\<close>

theorem struct_name_emitted_twice:
  "parse_dump collision_dump = Inr (parsed collision_dump) \<and>
   map full_name (resolved collision_dump) = [''A_B'', ''A.B''] \<and>
   map struct_name (resolved collision_dump) = [''A_B'', ''A_B''] \<and>
   emission 2 collision_dump \<noteq> None \<and>
   order (the (emission 2 collision_dump)) = [1, 0] \<and>
   map (take 18) (chunks (the (emission 2 collision_dump))) =
     [''struct A_B_Fields'' @ NL, ''struct A_B_Fields'' @ NL] \<and>
   generate_header example_templates 2 (fst (parsed collision_dump))
     (snd (parsed collision_dump)) ''29''
     = Some (Inr (concat ([GENERIC_HEADER example_templates,
                           variant_text example_templates ''29''] @
                          chunks (the (emission 2 collision_dump)))))"
proof -
  obtain tis am where p: "parse_dump collision_dump = Inr (tis, am)"
    using collision_eval by (cases "parse_dump collision_dump") auto
  have pe: "parsed collision_dump = (tis, am)" using p by (rule parsed_eq)
  show ?thesis
    using collision_eval p
    by (auto simp: pe resolved_def emission_def Let_def split: option.splits)
qed

end
